theory Spec2Isabelle
  imports Main "HOL-Library.Char_ord" "HOL-Library.List_Lexorder"
begin

section \<open>Entities and the store\<close>

text \<open>
  Modelled from the spec: the entity declarations of \<^verbatim>\<open>core.models\<close> (the model module is
  not among the sources; the serializers, the views and the tests fix the field names).
  A Tag and an Author have the same shape: an identifier, the owning user and a name.
  A Book has an identifier, the owning user, a title, a price (a fixed-point decimal, kept
  here as a number of hundredths), a link, a description and an image reference.
\<close>

record named =
  nid :: nat
  nuser :: nat
  nname :: string

record book =
  bid :: nat
  buser :: nat
  btitle :: string
  bprice :: int
  blink :: string
  bdescription :: string
  bimage :: "string option"

text \<open>
  The relational store: one table per entity, one link table per many-to-many relation
  (rows \<open>(book id, tag id)\<close> and \<open>(book id, author id)\<close>), and the next identifier of each
  auto-increment key.
\<close>

record store =
  books :: "book list"
  tags :: "named list"
  authors :: "named list"
  book_tags :: "(nat \<times> nat) list"
  book_authors :: "(nat \<times> nat) list"
  next_book_id :: nat
  next_tag_id :: nat
  next_author_id :: nat

datatype error = ValueError | TypeError | MultipleObjectsReturned | IntegrityError

section \<open>The object-relational calls the serializers make\<close>

text \<open>
  \<^verbatim>\<open>book.tags.add(obj)\<close> inserts the link row unless it is there already;
  \<^verbatim>\<open>book.tags.clear()\<close> deletes every link row of the book.
\<close>

definition m2m_add :: "nat \<Rightarrow> nat \<Rightarrow> (nat \<times> nat) list \<Rightarrow> (nat \<times> nat) list" where
  "m2m_add b t m = (if (b, t) \<in> set m then m else m @ [(b, t)])"

definition m2m_clear :: "nat \<Rightarrow> (nat \<times> nat) list \<Rightarrow> (nat \<times> nat) list" where
  "m2m_clear b m = filter (\<lambda>r. fst r \<noteq> b) m"

text \<open>
  A validated nested descriptor is the keyword dictionary \<^verbatim>\<open>**tag\<close>: it holds the key
  \<^verbatim>\<open>name\<close> or, after a partial validation that skipped the field, nothing. The lookup
  of \<^verbatim>\<open>get_or_create(user=auth_user, **tag)\<close> selects the rows of that user, with that
  name when the descriptor has one.
\<close>

definition matching :: "nat \<Rightarrow> string option \<Rightarrow> named list \<Rightarrow> named list" where
  "matching u d rows =
     filter (\<lambda>r. nuser r = u \<and> (case d of None \<Rightarrow> True | Some n \<Rightarrow> nname r = n)) rows"

text \<open>
  \<^verbatim>\<open>Model.objects.get_or_create\<close>: the single matching row when there is one; a new row
  (next identifier, the given user, the given name or the empty default) when there is
  none; \<^verbatim>\<open>MultipleObjectsReturned\<close> when several rows match. The result is the object,
  the \<^verbatim>\<open>created\<close> flag, and the table with its next identifier.
\<close>

definition get_or_create ::
  "nat \<Rightarrow> string option \<Rightarrow> named list \<Rightarrow> nat \<Rightarrow> error + (named \<times> bool \<times> named list \<times> nat)" where
  "get_or_create u d rows nxt =
     (case matching u d rows of
        [] \<Rightarrow>
          (let obj = \<lparr>nid = nxt, nuser = u, nname = (case d of None \<Rightarrow> [] | Some n \<Rightarrow> n)\<rparr>
           in Inr (obj, True, rows @ [obj], Suc nxt))
      | [obj] \<Rightarrow> Inr (obj, False, rows, nxt)
      | _ \<Rightarrow> Inl MultipleObjectsReturned)"

section \<open>Validated data\<close>

text \<open>
  The values of a validated-data dictionary: a text, a decimal, an image reference, a user
  (the key \<^verbatim>\<open>user\<close> that \<^verbatim>\<open>perform_create\<close> adds) or a list of nested descriptors.
\<close>

datatype attr =
    AText string
  | ADec int
  | AImage "string option"
  | AUser nat
  | ANested "string option list"

type_synonym vdata = "(string \<times> attr) list"

text \<open>\<^verbatim>\<open>d.pop(key, default)\<close>: the value under the key, if any, and the dictionary without it.\<close>

definition pop :: "string \<Rightarrow> vdata \<Rightarrow> attr option \<times> vdata" where
  "pop k d = (map_of d k, filter (\<lambda>kv. fst kv \<noteq> k) d)"

text \<open>
  The popped value is iterated as a list of descriptors; anything else that could sit
  under the key is not iterable as keyword dictionaries and raises.
\<close>

definition descriptors :: "attr option \<Rightarrow> error + string option list option" where
  "descriptors a =
     (case a of
        None \<Rightarrow> Inr None
      | Some (ANested ds) \<Rightarrow> Inr (Some ds)
      | Some _ \<Rightarrow> Inl TypeError)"

text \<open>
  \<^verbatim>\<open>setattr(instance, attr, value)\<close> on a Book: the named column takes the value. A key that
  is no column of the Book is not persisted by \<^verbatim>\<open>save()\<close>.
\<close>

fun setattr :: "book \<Rightarrow> string \<times> attr \<Rightarrow> book" where
  "setattr b (k, AText t) =
     (if k = ''title'' then b\<lparr>btitle := t\<rparr>
      else if k = ''link'' then b\<lparr>blink := t\<rparr>
      else if k = ''description'' then b\<lparr>bdescription := t\<rparr>
      else b)"
| "setattr b (k, ADec p) = (if k = ''price'' then b\<lparr>bprice := p\<rparr> else b)"
| "setattr b (k, AImage i) = (if k = ''image'' then b\<lparr>bimage := i\<rparr> else b)"
| "setattr b (k, AUser u) = (if k = ''user'' then b\<lparr>buser := u\<rparr> else b)"
| "setattr b (k, ANested ds) = b"

definition setattrs :: "vdata \<Rightarrow> book \<Rightarrow> book" where
  "setattrs validated_data instance = foldl setattr instance validated_data"

text \<open>
  \<^verbatim>\<open>instance.save()\<close> writes the row with the instance's key, or inserts it when the key
  is not in the table.
\<close>

definition save :: "book \<Rightarrow> store \<Rightarrow> store" where
  "save b s =
     (if bid b \<in> set (map bid (books s))
      then s\<lparr>books := map (\<lambda>x. if bid x = bid b then b else x) (books s)\<rparr>
      else s\<lparr>books := books s @ [b]\<rparr>)"

text \<open>
  \<^verbatim>\<open>Book.objects.create(**validated_data)\<close>: a new row with the next identifier and the
  given columns. Modelled from the spec: a Book belongs to exactly one user and has a price,
  so a row without either is refused by the store; the other columns default to empty.
\<close>

definition book_objects_create :: "vdata \<Rightarrow> store \<Rightarrow> error + (book \<times> store)" where
  "book_objects_create kwargs s =
     (case (map_of kwargs ''user'', map_of kwargs ''price'') of
        (Some (AUser u), Some (ADec p)) \<Rightarrow>
          (let b = setattrs kwargs
                     \<lparr>bid = next_book_id s, buser = u, btitle = [], bprice = p, blink = [],
                      bdescription = [], bimage = None\<rparr>
           in Inr (b, s\<lparr>books := books s @ [b], next_book_id := Suc (next_book_id s)\<rparr>))
      | _ \<Rightarrow> Inl IntegrityError)"

section \<open>The Book serializer (\<^verbatim>\<open>book/serializers.py\<close>)\<close>

text \<open>\<^verbatim>\<open>BookSerializer._get_or_create_tags\<close>; \<open>auth_user\<close> is the user of the request.\<close>

fun get_or_create_tags :: "nat \<Rightarrow> string option list \<Rightarrow> book \<Rightarrow> store \<Rightarrow> error + store" where
  "get_or_create_tags auth_user [] book s = Inr s"
| "get_or_create_tags auth_user (tag # rest) book s =
     (case get_or_create auth_user tag (tags s) (next_tag_id s) of
        Inl e \<Rightarrow> Inl e
      | Inr (tag_obj, created, rows, nxt) \<Rightarrow>
          get_or_create_tags auth_user rest book
            (s\<lparr>tags := rows, next_tag_id := nxt,
               book_tags := m2m_add (bid book) (nid tag_obj) (book_tags s)\<rparr>))"

text \<open>\<^verbatim>\<open>BookSerializer._get_or_create_authors\<close>.\<close>

fun get_or_create_authors :: "nat \<Rightarrow> string option list \<Rightarrow> book \<Rightarrow> store \<Rightarrow> error + store" where
  "get_or_create_authors auth_user [] book s = Inr s"
| "get_or_create_authors auth_user (author # rest) book s =
     (case get_or_create auth_user author (authors s) (next_author_id s) of
        Inl e \<Rightarrow> Inl e
      | Inr (author_obj, created, rows, nxt) \<Rightarrow>
          get_or_create_authors auth_user rest book
            (s\<lparr>authors := rows, next_author_id := nxt,
               book_authors := m2m_add (bid book) (nid author_obj) (book_authors s)\<rparr>))"

text \<open>\<^verbatim>\<open>BookSerializer.create\<close>: the two keys are popped with the default \<^verbatim>\<open>[]\<close>.\<close>

definition create :: "nat \<Rightarrow> vdata \<Rightarrow> store \<Rightarrow> error + (book \<times> store)" where
  "create auth_user validated_data s =
     (case descriptors (fst (pop ''tags'' validated_data)) of
        Inl e \<Rightarrow> Inl e
      | Inr tags_opt \<Rightarrow>
     (case descriptors (fst (pop ''authors'' (snd (pop ''tags'' validated_data)))) of
        Inl e \<Rightarrow> Inl e
      | Inr authors_opt \<Rightarrow>
     (case book_objects_create
             (snd (pop ''authors'' (snd (pop ''tags'' validated_data)))) s of
        Inl e \<Rightarrow> Inl e
      | Inr (book, s1) \<Rightarrow>
     (case get_or_create_tags auth_user (case tags_opt of None \<Rightarrow> [] | Some ts \<Rightarrow> ts) book s1 of
        Inl e \<Rightarrow> Inl e
      | Inr s2 \<Rightarrow>
     (case get_or_create_authors auth_user
             (case authors_opt of None \<Rightarrow> [] | Some as \<Rightarrow> as) book s2 of
        Inl e \<Rightarrow> Inl e
      | Inr s3 \<Rightarrow> Inr (book, s3))))))"

text \<open>
  \<^verbatim>\<open>BookSerializer.update\<close>: the two keys are popped with the default \<^verbatim>\<open>None\<close>; a key
  that is present clears the book's links of that kind and repopulates them; the remaining
  items are set on the instance, which is saved.
\<close>

definition update :: "nat \<Rightarrow> book \<Rightarrow> vdata \<Rightarrow> store \<Rightarrow> error + (book \<times> store)" where
  "update auth_user instance validated_data s =
     (case descriptors (fst (pop ''tags'' validated_data)) of
        Inl e \<Rightarrow> Inl e
      | Inr tags_opt \<Rightarrow>
     (case descriptors (fst (pop ''authors'' (snd (pop ''tags'' validated_data)))) of
        Inl e \<Rightarrow> Inl e
      | Inr authors_opt \<Rightarrow>
     (case (case tags_opt of
              None \<Rightarrow> Inr s
            | Some ts \<Rightarrow>
                get_or_create_tags auth_user ts instance
                  (s\<lparr>book_tags := m2m_clear (bid instance) (book_tags s)\<rparr>)) of
        Inl e \<Rightarrow> Inl e
      | Inr s1 \<Rightarrow>
     (case (case authors_opt of
              None \<Rightarrow> Inr s1
            | Some as \<Rightarrow>
                get_or_create_authors auth_user as instance
                  (s1\<lparr>book_authors := m2m_clear (bid instance) (book_authors s1)\<rparr>)) of
        Inl e \<Rightarrow> Inl e
      | Inr s2 \<Rightarrow>
          (let instance' = setattrs (snd (pop ''authors'' (snd (pop ''tags'' validated_data))))
                             instance
           in Inr (instance', save instance' s2))))))"

text \<open>
  \<^verbatim>\<open>ModelSerializer.update\<close>, which \<^verbatim>\<open>BookImageSerializer\<close> inherits unchanged: every
  validated item is set on the instance, which is saved.
\<close>

definition model_update :: "book \<Rightarrow> vdata \<Rightarrow> store \<Rightarrow> book \<times> store" where
  "model_update instance validated_data s =
     (let instance' = setattrs validated_data instance in (instance', save instance' s))"

section \<open>Serializer classes, their fields and their representations\<close>

datatype serializer_class = BookSerializer | BookDetailSerializer | BookImageSerializer

text \<open>
  \<^verbatim>\<open>Meta.fields\<close> of each Book serializer (the constant \<open>meta_fields\<close>); the detail
  serializer extends the list one.
\<close>

definition book_serializer_fields :: "string list" where
  "book_serializer_fields = [''id'', ''title'', ''price'', ''link'', ''tags'', ''authors'']"

definition meta_fields :: "serializer_class \<Rightarrow> string list" where
  "meta_fields cls =
     (case cls of
        BookSerializer \<Rightarrow> book_serializer_fields
      | BookDetailSerializer \<Rightarrow> book_serializer_fields @ [''description'', ''image'']
      | BookImageSerializer \<Rightarrow> [''id'', ''image''])"

text \<open>\<^verbatim>\<open>Meta.read_only_fields\<close>, the same in every serializer of the module.\<close>

definition read_only_fields :: "string list" where
  "read_only_fields = [''id'']"

datatype rvalue =
    RNull
  | RNum nat
  | RText string
  | RDec int
  | RObjects "(string \<times> rvalue) list list"

text \<open>\<^verbatim>\<open>TagSerializer\<close> and \<^verbatim>\<open>AuthorSerializer\<close>: the fields \<^verbatim>\<open>id\<close> and \<^verbatim>\<open>name\<close>.\<close>

definition named_representation :: "named \<Rightarrow> (string \<times> rvalue) list" where
  "named_representation t = [(''id'', RNum (nid t)), (''name'', RText (nname t))]"

text \<open>The related manager \<^verbatim>\<open>book.tags.all()\<close>: the rows a link row of the book points to.\<close>

definition related :: "nat \<Rightarrow> (nat \<times> nat) list \<Rightarrow> named list \<Rightarrow> named list" where
  "related b links rows = filter (\<lambda>t. (b, nid t) \<in> set links) rows"

definition field_value :: "store \<Rightarrow> book \<Rightarrow> string \<Rightarrow> rvalue" where
  "field_value s b f =
     (if f = ''id'' then RNum (bid b)
      else if f = ''title'' then RText (btitle b)
      else if f = ''price'' then RDec (bprice b)
      else if f = ''link'' then RText (blink b)
      else if f = ''tags'' then
        RObjects (map named_representation (related (bid b) (book_tags s) (tags s)))
      else if f = ''authors'' then
        RObjects (map named_representation (related (bid b) (book_authors s) (authors s)))
      else if f = ''description'' then RText (bdescription b)
      else if f = ''image'' then (case bimage b of None \<Rightarrow> RNull | Some i \<Rightarrow> RText i)
      else RNull)"

definition to_representation ::
  "serializer_class \<Rightarrow> store \<Rightarrow> book \<Rightarrow> (string \<times> rvalue) list" where
  "to_representation cls s b = map (\<lambda>f. (f, field_value s b f)) (meta_fields cls)"

section \<open>Request data and its validation\<close>

text \<open>
  A parsed request body: null, a text, a decimal number (in hundredths), an uploaded file
  (whether it decodes as an image, and its name), a list, or an object.
\<close>

datatype val =
    VNull
  | VText string
  | VNum int
  | VFile bool string
  | VList "val list"
  | VObj "(string \<times> val) list"

type_synonym payload = "(string \<times> val) list"

datatype detail =
    Messages "string list"
  | Children "(string \<times> string list) list list"

type_synonym errors = "(string \<times> detail) list"

text \<open>
  Modelled from the spec: the scalar columns of \<^verbatim>\<open>core.models\<close>, from which the model
  serializers derive their field validators (the model module is not among the sources).
  The title is required and not blank, the price is required and not negative, the link
  and the description are optional texts, the image is an optional image file, and the
  name of a Tag or an Author is a required non-blank text.
\<close>

definition validate_text :: "bool \<Rightarrow> val \<Rightarrow> string list + string" where
  "validate_text allow_blank v =
     (case v of
        VText t \<Rightarrow>
          if t = [] \<and> \<not> allow_blank then Inl [''This field may not be blank.'']
          else Inr t
      | VNull \<Rightarrow> Inl [''This field may not be null.'']
      | _ \<Rightarrow> Inl [''Not a valid string.''])"

definition validate_price :: "val \<Rightarrow> string list + int" where
  "validate_price v =
     (case v of
        VNum n \<Rightarrow>
          if n < 0 then Inl [''Ensure this value is greater than or equal to 0.'']
          else Inr n
      | VNull \<Rightarrow> Inl [''This field may not be null.'']
      | _ \<Rightarrow> Inl [''A valid number is required.''])"

definition validate_image :: "val \<Rightarrow> string list + string option" where
  "validate_image v =
     (case v of
        VFile is_image name \<Rightarrow>
          if is_image then Inr (Some name)
          else Inl [''Upload a valid image.'']
      | VNull \<Rightarrow> Inr None
      | _ \<Rightarrow> Inl [''The submitted data was not a file.''])"

text \<open>
  The validation of one object by \<^verbatim>\<open>TagSerializer\<close> or \<^verbatim>\<open>AuthorSerializer\<close>: the only
  writable field is \<^verbatim>\<open>name\<close>. A missing field is reported as required unless the root
  serializer validates partially, in which case the field is skipped: the flag
  \<open>partial\<close> is the root's, also for a nested object.
\<close>

definition validate_named :: "bool \<Rightarrow> val \<Rightarrow> (string \<times> string list) list + string option" where
  "validate_named partial v =
     (case v of
        VObj d \<Rightarrow>
          (case map_of d ''name'' of
             None \<Rightarrow>
               if partial then Inr None
               else Inl [(''name'', [''This field is required.''])]
           | Some x \<Rightarrow>
               (case validate_text False x of
                  Inl msgs \<Rightarrow> Inl [(''name'', msgs)]
                | Inr n \<Rightarrow> Inr (Some n)))
      | _ \<Rightarrow> Inl [(''non_field_errors'', [''Invalid data. Expected a dictionary.''])])"

text \<open>
  \<^verbatim>\<open>TagSerializer(many=True)\<close>: a list, each item validated on its own; one bad item
  fails the list.
\<close>

definition validate_nested :: "bool \<Rightarrow> val \<Rightarrow> detail + string option list" where
  "validate_nested partial v =
     (case v of
        VList items \<Rightarrow>
          (let results = map (validate_named partial) items in
           if list_ex isl results
           then Inl (Children (map (\<lambda>r. case r of Inl e \<Rightarrow> e | Inr _ \<Rightarrow> []) results))
           else Inr (map (\<lambda>r. case r of Inl _ \<Rightarrow> None | Inr d \<Rightarrow> d) results))
      | _ \<Rightarrow> Inl (Messages [''Expected a list of items.'']))"

definition validate_field :: "bool \<Rightarrow> string \<Rightarrow> val \<Rightarrow> detail + attr" where
  "validate_field partial f v =
     (if f = ''title'' then map_sum Messages AText (validate_text False v)
      else if f = ''price'' then map_sum Messages ADec (validate_price v)
      else if f = ''link'' \<or> f = ''description'' then
        map_sum Messages AText (validate_text True v)
      else if f = ''image'' then map_sum Messages AImage (validate_image v)
      else if f = ''tags'' \<or> f = ''authors'' then map_sum id ANested (validate_nested partial v)
      else Inl (Messages [''Unknown field.'']))"

text \<open>
  Which fields a serializer requires: the title and the price (modelled from the spec, as
  above); \<^verbatim>\<open>tags\<close> and \<^verbatim>\<open>authors\<close> are declared \<^verbatim>\<open>required=False\<close>; the image
  serializer's \<^verbatim>\<open>extra_kwargs\<close> make its image required.
\<close>

definition required :: "serializer_class \<Rightarrow> string \<Rightarrow> bool" where
  "required cls f =
     (f = ''title'' \<or> f = ''price'' \<or> (cls = BookImageSerializer \<and> f = ''image''))"

text \<open>
  \<^verbatim>\<open>Serializer.to_internal_value\<close> over the declared fields: a read-only field is never
  read from the input; a key that is no field is ignored; a missing field is skipped when
  the validation is partial or the field is not required, and is an error otherwise.
\<close>

fun run_fields ::
  "serializer_class \<Rightarrow> bool \<Rightarrow> payload \<Rightarrow> string list \<Rightarrow> errors \<times> vdata" where
  "run_fields cls partial d [] = ([], [])"
| "run_fields cls partial d (f # fs) =
     (case run_fields cls partial d fs of
        (errs, ret) \<Rightarrow>
          if f \<in> set read_only_fields then (errs, ret)
          else
            (case map_of d f of
               None \<Rightarrow>
                 if partial then (errs, ret)
                 else if required cls f then ((f, Messages [''This field is required.'']) # errs, ret)
                 else (errs, ret)
             | Some v \<Rightarrow>
                 (case validate_field partial f v of
                    Inl e \<Rightarrow> ((f, e) # errs, ret)
                  | Inr a \<Rightarrow> (errs, (f, a) # ret))))"

definition run_validation :: "serializer_class \<Rightarrow> bool \<Rightarrow> payload \<Rightarrow> errors + vdata" where
  "run_validation cls partial d =
     (case run_fields cls partial d (meta_fields cls) of
        ([], ret) \<Rightarrow> Inr ret
      | (errs, ret) \<Rightarrow> Inl errs)"

section \<open>Query parameters (\<^verbatim>\<open>book/views.py\<close>)\<close>

text \<open>\<^verbatim>\<open>str.split(',')\<close>: the pieces between commas; the empty string has one empty piece.\<close>

fun split_comma :: "string \<Rightarrow> string list" where
  "split_comma [] = [[]]"
| "split_comma (c # cs) =
     (if c = CHR '','' then [] # split_comma cs
      else (case split_comma cs of [] \<Rightarrow> [[c]] | w # ws \<Rightarrow> (c # w) # ws))"

text \<open>
  \<^verbatim>\<open>int(str)\<close> on ASCII text: surrounding whitespace (tab, line feed, vertical tab, form
  feed, carriage return and space) is dropped, then an optional sign, then decimal digits,
  where single underscores may separate digits. Anything else raises \<^verbatim>\<open>ValueError\<close>.
\<close>

definition is_space :: "char \<Rightarrow> bool" where
  "is_space c = ((of_char c :: nat) \<in> {9, 10, 11, 12, 13, 32})"

definition strip :: "string \<Rightarrow> string" where
  "strip s = rev (dropWhile is_space (rev (dropWhile is_space s)))"

definition digit_of :: "char \<Rightarrow> nat option" where
  "digit_of c =
     (if 48 \<le> (of_char c :: nat) \<and> (of_char c :: nat) \<le> 57 then Some (of_char c - 48)
      else None)"

fun digits :: "int \<Rightarrow> bool \<Rightarrow> string \<Rightarrow> int option" where
  "digits acc after_digit [] = (if after_digit then Some acc else None)"
| "digits acc after_digit (c # cs) =
     (if c = CHR ''_'' then
        (if after_digit \<and> cs \<noteq> [] then digits acc False cs else None)
      else
        (case digit_of c of
           None \<Rightarrow> None
         | Some d \<Rightarrow> digits (10 * acc + int d) True cs))"

definition py_int :: "string \<Rightarrow> error + int" where
  "py_int s =
     (case strip s of
        [] \<Rightarrow> Inl ValueError
      | c # cs \<Rightarrow>
          if c = CHR ''-'' then
            (case digits 0 False cs of None \<Rightarrow> Inl ValueError | Some n \<Rightarrow> Inr (- n))
          else if c = CHR ''+'' then
            (case digits 0 False cs of None \<Rightarrow> Inl ValueError | Some n \<Rightarrow> Inr n)
          else
            (case digits 0 False (c # cs) of None \<Rightarrow> Inl ValueError | Some n \<Rightarrow> Inr n))"

text \<open>The list comprehension of \<^verbatim>\<open>_params_to_ints\<close> stops at the first piece that raises.\<close>

fun ints_of :: "string list \<Rightarrow> error + int list" where
  "ints_of [] = Inr []"
| "ints_of (str_id # rest) =
     (case py_int str_id of
        Inl e \<Rightarrow> Inl e
      | Inr n \<Rightarrow> (case ints_of rest of Inl e \<Rightarrow> Inl e | Inr ns \<Rightarrow> Inr (n # ns)))"

text \<open>\<^verbatim>\<open>BookViewSet._params_to_ints\<close>.\<close>

definition params_to_ints :: "string \<Rightarrow> error + int list" where
  "params_to_ints qs = ints_of (split_comma qs)"

section \<open>Querysets\<close>

text \<open>
  \<^verbatim>\<open>queryset.filter(tags__id__in=ids)\<close> joins the books with the link table: a book comes
  once for every link row of its own whose target is among the identifiers.
\<close>

definition filter_id_in :: "(nat \<times> nat) list \<Rightarrow> int list \<Rightarrow> book list \<Rightarrow> book list" where
  "filter_id_in links ids queryset =
     concat (map (\<lambda>b. map (\<lambda>r. b) (filter (\<lambda>r. fst r = bid b \<and> int (snd r) \<in> set ids) links))
                 queryset)"

text \<open>
  \<^verbatim>\<open>queryset.filter(book__isnull=False)\<close> joins the tags (or authors) with the link table:
  a row comes once for every link row that points to it.
\<close>

definition filter_book_notnull :: "(nat \<times> nat) list \<Rightarrow> named list \<Rightarrow> named list" where
  "filter_book_notnull links queryset =
     concat (map (\<lambda>t. map (\<lambda>r. t) (filter (\<lambda>r. snd r = nid t) links)) queryset)"

text \<open>\<^verbatim>\<open>order_by('-id')\<close>, \<^verbatim>\<open>order_by('-name')\<close> and \<^verbatim>\<open>distinct()\<close>.\<close>

definition order_by_desc :: "('a \<Rightarrow> 'k::linorder) \<Rightarrow> 'a list \<Rightarrow> 'a list" where
  "order_by_desc key rows = rev (sort_key key rows)"

definition distinct_rows :: "'a list \<Rightarrow> 'a list" where
  "distinct_rows rows = remdups rows"

text \<open>
  \<^verbatim>\<open>BookViewSet.get_queryset\<close>. A parameter that is absent (\<^verbatim>\<open>None\<close>) or the empty
  string is falsy, and its filter is skipped.
\<close>

definition get_queryset :: "nat \<Rightarrow> (string \<times> string) list \<Rightarrow> store \<Rightarrow> error + book list" where
  "get_queryset user query_params s =
     (case (case map_of query_params ''tags'' of
              None \<Rightarrow> Inr (books s)
            | Some tags_param \<Rightarrow>
                if tags_param = [] then Inr (books s)
                else
                  (case params_to_ints tags_param of
                     Inl e \<Rightarrow> Inl e
                   | Inr tag_ids \<Rightarrow> Inr (filter_id_in (book_tags s) tag_ids (books s)))) of
        Inl e \<Rightarrow> Inl e
      | Inr queryset1 \<Rightarrow>
     (case (case map_of query_params ''authors'' of
              None \<Rightarrow> Inr queryset1
            | Some authors_param \<Rightarrow>
                if authors_param = [] then Inr queryset1
                else
                  (case params_to_ints authors_param of
                     Inl e \<Rightarrow> Inl e
                   | Inr author_ids \<Rightarrow> Inr (filter_id_in (book_authors s) author_ids queryset1))) of
        Inl e \<Rightarrow> Inl e
      | Inr queryset2 \<Rightarrow>
          Inr (distinct_rows (order_by_desc bid (filter (\<lambda>b. buser b = user) queryset2)))))"

text \<open>The two viewsets over \<^verbatim>\<open>BaseBookAttrViewSet\<close>, and the table each one lists.\<close>

datatype kind = Tag | Author

fun rows_of :: "kind \<Rightarrow> store \<Rightarrow> named list" where
  "rows_of Tag s = tags s"
| "rows_of Author s = authors s"

fun links_of :: "kind \<Rightarrow> store \<Rightarrow> (nat \<times> nat) list" where
  "links_of Tag s = book_tags s"
| "links_of Author s = book_authors s"

text \<open>
  \<^verbatim>\<open>BaseBookAttrViewSet.get_queryset\<close>: \<^verbatim>\<open>bool(int(query_params.get('assigned_only', 0)))\<close>.
\<close>

definition attr_get_queryset ::
  "kind \<Rightarrow> nat \<Rightarrow> (string \<times> string) list \<Rightarrow> store \<Rightarrow> error + named list" where
  "attr_get_queryset k user query_params s =
     (case (case map_of query_params ''assigned_only'' of
              None \<Rightarrow> Inr 0
            | Some v \<Rightarrow> py_int v) of
        Inl e \<Rightarrow> Inl e
      | Inr n \<Rightarrow>
          (let assigned_only = (n \<noteq> 0);
               queryset = (if assigned_only then filter_book_notnull (links_of k s) (rows_of k s)
                           else rows_of k s)
           in Inr (distinct_rows (order_by_desc nname (filter (\<lambda>t. nuser t = user) queryset)))))"

section \<open>Requests, responses and the Book endpoints\<close>

text \<open>
  A request as the views read it: the authenticated user (none when the credential is
  missing or invalid), the query parameters and the parsed body.
\<close>

record request =
  req_user :: "nat option"
  req_query_params :: "(string \<times> string) list"
  req_data :: payload

datatype content =
    NoContent
  | Message string
  | ErrorMap errors
  | Object "(string \<times> rvalue) list"
  | Objects "(string \<times> rvalue) list list"

record response =
  status_code :: nat
  content :: content

definition not_authenticated :: response where
  "not_authenticated =
     \<lparr>status_code = 401, content = Message ''Authentication credentials were not provided.''\<rparr>"

definition not_found :: response where
  "not_found = \<lparr>status_code = 404, content = Message ''Not found.''\<rparr>"

definition bad_request :: "errors \<Rightarrow> response" where
  "bad_request errs = \<lparr>status_code = 400, content = ErrorMap errs\<rparr>"

datatype action = List | Retrieve | Create | Update | PartialUpdate | Destroy | UploadImage

text \<open>\<^verbatim>\<open>BookViewSet.get_serializer_class\<close>; the class attribute is the detail serializer.\<close>

definition get_serializer_class :: "action \<Rightarrow> serializer_class" where
  "get_serializer_class a =
     (if a = List then BookSerializer
      else if a = UploadImage then BookImageSerializer
      else BookDetailSerializer)"

text \<open>
  \<^verbatim>\<open>GenericAPIView.get_object\<close>: the row of \<^verbatim>\<open>get_queryset()\<close> with the key of the URL;
  no such row is \<^verbatim>\<open>Http404\<close> (the result \<open>None\<close>).
\<close>

definition get_object ::
  "nat \<Rightarrow> (string \<times> string) list \<Rightarrow> nat \<Rightarrow> store \<Rightarrow> error + book option" where
  "get_object user query_params pk s =
     (case get_queryset user query_params s of
        Inl e \<Rightarrow> Inl e
      | Inr queryset \<Rightarrow>
          (case filter (\<lambda>b. bid b = pk) queryset of
             [] \<Rightarrow> Inr None
           | [obj] \<Rightarrow> Inr (Some obj)
           | _ \<Rightarrow> Inl MultipleObjectsReturned))"

text \<open>
  Every endpoint answers a request without an authenticated user with 401 before
  anything else. A call that raises gives no response; modelled from the spec: a request
  is one transaction, so the store is then as it was.
\<close>

definition book_list :: "request \<Rightarrow> store \<Rightarrow> (error + response) \<times> store" where
  "book_list req s =
     (case req_user req of
        None \<Rightarrow> (Inr not_authenticated, s)
      | Some user \<Rightarrow>
          (case get_queryset user (req_query_params req) s of
             Inl e \<Rightarrow> (Inl e, s)
           | Inr queryset \<Rightarrow>
               (Inr \<lparr>status_code = 200,
                     content = Objects (map (to_representation (get_serializer_class List) s)
                                            queryset)\<rparr>, s)))"

definition book_retrieve :: "request \<Rightarrow> nat \<Rightarrow> store \<Rightarrow> (error + response) \<times> store" where
  "book_retrieve req pk s =
     (case req_user req of
        None \<Rightarrow> (Inr not_authenticated, s)
      | Some user \<Rightarrow>
          (case get_object user (req_query_params req) pk s of
             Inl e \<Rightarrow> (Inl e, s)
           | Inr None \<Rightarrow> (Inr not_found, s)
           | Inr (Some instance) \<Rightarrow>
               (Inr \<lparr>status_code = 200,
                     content = Object (to_representation (get_serializer_class Retrieve) s
                                         instance)\<rparr>, s)))"

text \<open>
  \<^verbatim>\<open>BookViewSet.perform_create\<close>: \<^verbatim>\<open>serializer.save(user=self.request.user)\<close> merges the
  keyword into the validated data and calls the serializer's \<^verbatim>\<open>create\<close>.
\<close>

definition perform_create :: "nat \<Rightarrow> vdata \<Rightarrow> store \<Rightarrow> error + (book \<times> store)" where
  "perform_create user validated_data s =
     create user (filter (\<lambda>kv. fst kv \<noteq> ''user'') validated_data @ [(''user'', AUser user)]) s"

definition book_create :: "request \<Rightarrow> store \<Rightarrow> (error + response) \<times> store" where
  "book_create req s =
     (case req_user req of
        None \<Rightarrow> (Inr not_authenticated, s)
      | Some user \<Rightarrow>
          (case run_validation (get_serializer_class Create) False (req_data req) of
             Inl errs \<Rightarrow> (Inr (bad_request errs), s)
           | Inr validated_data \<Rightarrow>
               (case perform_create user validated_data s of
                  Inl e \<Rightarrow> (Inl e, s)
                | Inr (obj, s') \<Rightarrow>
                    (Inr \<lparr>status_code = 201,
                          content = Object (to_representation (get_serializer_class Create) s'
                                              obj)\<rparr>, s'))))"

text \<open>
  \<^verbatim>\<open>UpdateModelMixin.update\<close> (PUT) and \<^verbatim>\<open>partial_update\<close> (PATCH, \<open>partial\<close> true): the
  object is fetched first, then the body is validated, then the serializer's
  \<^verbatim>\<open>update\<close> runs.
\<close>

definition book_update :: "bool \<Rightarrow> request \<Rightarrow> nat \<Rightarrow> store \<Rightarrow> (error + response) \<times> store" where
  "book_update partial req pk s =
     (case req_user req of
        None \<Rightarrow> (Inr not_authenticated, s)
      | Some user \<Rightarrow>
          (case get_object user (req_query_params req) pk s of
             Inl e \<Rightarrow> (Inl e, s)
           | Inr None \<Rightarrow> (Inr not_found, s)
           | Inr (Some instance) \<Rightarrow>
               (case run_validation
                       (get_serializer_class (if partial then PartialUpdate else Update))
                       partial (req_data req) of
                  Inl errs \<Rightarrow> (Inr (bad_request errs), s)
                | Inr validated_data \<Rightarrow>
                    (case update user instance validated_data s of
                       Inl e \<Rightarrow> (Inl e, s)
                     | Inr (obj, s') \<Rightarrow>
                         (Inr \<lparr>status_code = 200,
                               content = Object (to_representation
                                                   (get_serializer_class
                                                      (if partial then PartialUpdate else Update))
                                                   s' obj)\<rparr>, s')))))"

text \<open>\<^verbatim>\<open>instance.delete()\<close>: the row goes, and with it the link rows of the book.\<close>

definition delete_book :: "book \<Rightarrow> store \<Rightarrow> store" where
  "delete_book b s =
     s\<lparr>books := filter (\<lambda>x. bid x \<noteq> bid b) (books s),
       book_tags := filter (\<lambda>r. fst r \<noteq> bid b) (book_tags s),
       book_authors := filter (\<lambda>r. fst r \<noteq> bid b) (book_authors s)\<rparr>"

definition book_destroy :: "request \<Rightarrow> nat \<Rightarrow> store \<Rightarrow> (error + response) \<times> store" where
  "book_destroy req pk s =
     (case req_user req of
        None \<Rightarrow> (Inr not_authenticated, s)
      | Some user \<Rightarrow>
          (case get_object user (req_query_params req) pk s of
             Inl e \<Rightarrow> (Inl e, s)
           | Inr None \<Rightarrow> (Inr not_found, s)
           | Inr (Some instance) \<Rightarrow>
               (Inr \<lparr>status_code = 204, content = NoContent\<rparr>, delete_book instance s)))"

text \<open>\<^verbatim>\<open>BookViewSet.upload_image\<close>.\<close>

definition upload_image :: "request \<Rightarrow> nat \<Rightarrow> store \<Rightarrow> (error + response) \<times> store" where
  "upload_image req pk s =
     (case req_user req of
        None \<Rightarrow> (Inr not_authenticated, s)
      | Some user \<Rightarrow>
          (case get_object user (req_query_params req) pk s of
             Inl e \<Rightarrow> (Inl e, s)
           | Inr None \<Rightarrow> (Inr not_found, s)
           | Inr (Some book) \<Rightarrow>
               (case run_validation (get_serializer_class UploadImage) False (req_data req) of
                  Inr validated_data \<Rightarrow>
                    (case model_update book validated_data s of
                       (obj, s') \<Rightarrow>
                         (Inr \<lparr>status_code = 200,
                               content = Object (to_representation
                                                   (get_serializer_class UploadImage) s' obj)\<rparr>,
                          s'))
                | Inl errs \<Rightarrow> (Inr (bad_request errs), s))))"

section \<open>The Tag and Author endpoints\<close>

fun set_rows :: "kind \<Rightarrow> named list \<Rightarrow> store \<Rightarrow> store" where
  "set_rows Tag rows s = s\<lparr>tags := rows\<rparr>"
| "set_rows Author rows s = s\<lparr>authors := rows\<rparr>"

fun set_links :: "kind \<Rightarrow> (nat \<times> nat) list \<Rightarrow> store \<Rightarrow> store" where
  "set_links Tag links s = s\<lparr>book_tags := links\<rparr>"
| "set_links Author links s = s\<lparr>book_authors := links\<rparr>"

definition attr_get_object ::
  "kind \<Rightarrow> nat \<Rightarrow> (string \<times> string) list \<Rightarrow> nat \<Rightarrow> store \<Rightarrow> error + named option" where
  "attr_get_object k user query_params pk s =
     (case attr_get_queryset k user query_params s of
        Inl e \<Rightarrow> Inl e
      | Inr queryset \<Rightarrow>
          (case filter (\<lambda>t. nid t = pk) queryset of
             [] \<Rightarrow> Inr None
           | [obj] \<Rightarrow> Inr (Some obj)
           | _ \<Rightarrow> Inl MultipleObjectsReturned))"

definition attr_list :: "kind \<Rightarrow> request \<Rightarrow> store \<Rightarrow> (error + response) \<times> store" where
  "attr_list k req s =
     (case req_user req of
        None \<Rightarrow> (Inr not_authenticated, s)
      | Some user \<Rightarrow>
          (case attr_get_queryset k user (req_query_params req) s of
             Inl e \<Rightarrow> (Inl e, s)
           | Inr queryset \<Rightarrow>
               (Inr \<lparr>status_code = 200, content = Objects (map named_representation queryset)\<rparr>,
                s)))"

text \<open>The inherited \<^verbatim>\<open>ModelSerializer.update\<close> on a Tag or an Author, and its \<^verbatim>\<open>save()\<close>.\<close>

definition save_named :: "kind \<Rightarrow> named \<Rightarrow> store \<Rightarrow> store" where
  "save_named k t s =
     (if nid t \<in> set (map nid (rows_of k s))
      then set_rows k (map (\<lambda>x. if nid x = nid t then t else x) (rows_of k s)) s
      else set_rows k (rows_of k s @ [t]) s)"

definition attr_update ::
  "kind \<Rightarrow> bool \<Rightarrow> request \<Rightarrow> nat \<Rightarrow> store \<Rightarrow> (error + response) \<times> store" where
  "attr_update k partial req pk s =
     (case req_user req of
        None \<Rightarrow> (Inr not_authenticated, s)
      | Some user \<Rightarrow>
          (case attr_get_object k user (req_query_params req) pk s of
             Inl e \<Rightarrow> (Inl e, s)
           | Inr None \<Rightarrow> (Inr not_found, s)
           | Inr (Some instance) \<Rightarrow>
               (case validate_named partial (VObj (req_data req)) of
                  Inl errs \<Rightarrow> (Inr (bad_request (map (\<lambda>e. (fst e, Messages (snd e))) errs)), s)
                | Inr validated_name \<Rightarrow>
                    (let instance' = (case validated_name of
                                        None \<Rightarrow> instance
                                      | Some n \<Rightarrow> instance\<lparr>nname := n\<rparr>)
                     in (Inr \<lparr>status_code = 200,
                              content = Object (named_representation instance')\<rparr>,
                         save_named k instance' s)))))"

definition delete_named :: "kind \<Rightarrow> named \<Rightarrow> store \<Rightarrow> store" where
  "delete_named k t s =
     set_links k (filter (\<lambda>r. snd r \<noteq> nid t) (links_of k s))
       (set_rows k (filter (\<lambda>x. nid x \<noteq> nid t) (rows_of k s)) s)"

definition attr_destroy :: "kind \<Rightarrow> request \<Rightarrow> nat \<Rightarrow> store \<Rightarrow> (error + response) \<times> store" where
  "attr_destroy k req pk s =
     (case req_user req of
        None \<Rightarrow> (Inr not_authenticated, s)
      | Some user \<Rightarrow>
          (case attr_get_object k user (req_query_params req) pk s of
             Inl e \<Rightarrow> (Inl e, s)
           | Inr None \<Rightarrow> (Inr not_found, s)
           | Inr (Some instance) \<Rightarrow>
               (Inr \<lparr>status_code = 204, content = NoContent\<rparr>, delete_named k instance s)))"

section \<open>Notions used in the statements\<close>

fun reconcile ::
  "nat \<Rightarrow> string option list \<Rightarrow> nat \<Rightarrow> named list \<Rightarrow> nat \<Rightarrow> (nat \<times> nat) list
     \<Rightarrow> error + (named list \<times> nat \<times> (nat \<times> nat) list)" where
  "reconcile u [] b rows nxt m = Inr (rows, nxt, m)"
| "reconcile u (d # ds) b rows nxt m =
     (case get_or_create u d rows nxt of
        Inl e \<Rightarrow> Inl e
      | Inr (obj, created, rows', nxt') \<Rightarrow> reconcile u ds b rows' nxt' (m2m_add b (nid obj) m))"

definition owns :: "nat \<Rightarrow> string \<Rightarrow> named list \<Rightarrow> bool" where
  "owns u n rows = (\<exists>r\<in>set rows. nuser r = u \<and> nname r = n)"


definition linked :: "nat \<Rightarrow> (nat \<times> nat) list \<Rightarrow> nat set" where
  "linked b links = set (map snd (filter (\<lambda>r. fst r = b) links))"

definition resolved_ids :: "nat \<Rightarrow> string list \<Rightarrow> named list \<Rightarrow> nat set" where
  "resolved_ids u names rows =
     set (map nid (filter (\<lambda>t. nuser t = u \<and> nname t \<in> set names) rows))"

definition reconciled ::
  "nat \<Rightarrow> string list \<Rightarrow> nat \<Rightarrow> named list \<Rightarrow> named list \<Rightarrow> (nat \<times> nat) list \<Rightarrow> bool" where
  "reconciled u names b before after links =
     (take (length before) after = before
      \<and> (\<forall>c\<in>set (drop (length before) after).
            nuser c = u \<and> nname c \<in> set names \<and> \<not> owns u (nname c) before)
      \<and> distinct (map nname (drop (length before) after))
      \<and> (\<forall>n\<in>set names. length (matching u (Some n) after) = 1)
      \<and> (\<forall>t\<in>set before. nuser t = u \<and> nname t \<in> set names \<longrightarrow> (b, nid t) \<in> set links))"

text \<open>
  A small store for the concrete instances below: two users; user 1 owns books 1 and 3,
  the tags x and y (both linked to books) and q (linked to none) and the author ann;
  user 2 owns book 2 and a tag of its own named x.
\<close>

definition demo_book1 :: book where
  "demo_book1 = \<lparr>bid = 1, buser = 1, btitle = ''A'', bprice = 525, blink = [],
                  bdescription = ''first'', bimage = None\<rparr>"

definition demo_book2 :: book where
  "demo_book2 = \<lparr>bid = 2, buser = 2, btitle = ''B'', bprice = 100, blink = [],
                  bdescription = [], bimage = None\<rparr>"

definition demo_book3 :: book where
  "demo_book3 = \<lparr>bid = 3, buser = 1, btitle = ''C'', bprice = 100, blink = [],
                  bdescription = [], bimage = None\<rparr>"

definition demo_store :: store where
  "demo_store =
     \<lparr>books = [demo_book1, demo_book2, demo_book3],
      tags = [\<lparr>nid = 1, nuser = 1, nname = ''x''\<rparr>, \<lparr>nid = 2, nuser = 1, nname = ''y''\<rparr>,
              \<lparr>nid = 3, nuser = 2, nname = ''x''\<rparr>, \<lparr>nid = 4, nuser = 1, nname = ''q''\<rparr>],
      authors = [\<lparr>nid = 1, nuser = 1, nname = ''ann''\<rparr>],
      book_tags = [(1, 1), (1, 2), (3, 2), (2, 3)],
      book_authors = [(1, 1)],
      next_book_id = 4, next_tag_id = 5, next_author_id = 2\<rparr>"

text \<open>
  The identifiers a filter parameter supplies: none when the parameter is absent or empty
  (the filter is then not applied).
\<close>

definition filter_ids :: "string \<Rightarrow> (string \<times> string) list \<Rightarrow> int list option" where
  "filter_ids key query_params =
     (case map_of query_params key of
        None \<Rightarrow> None
      | Some v \<Rightarrow>
          if v = [] then None
          else (case params_to_ints v of Inl e \<Rightarrow> None | Inr ids \<Rightarrow> Some ids))"

text \<open>A book references one of the supplied identifiers through the given link table.\<close>

definition references :: "(nat \<times> nat) list \<Rightarrow> book \<Rightarrow> int list option \<Rightarrow> bool" where
  "references links b ids =
     (case ids of
        None \<Rightarrow> True
      | Some wanted \<Rightarrow> list_ex (\<lambda>r. fst r = bid b \<and> int (snd r) \<in> set wanted) links)"

text \<open>A tag or author is referenced by at least one book.\<close>

definition assigned :: "(nat \<times> nat) list \<Rightarrow> named \<Rightarrow> bool" where
  "assigned links t = list_ex (\<lambda>r. snd r = nid t) links"

text \<open>
  Well-formed query parameters: a piece that is a non-empty run of at most eighteen ASCII
  decimal digits (an identifier within the range of a 64-bit key); a filter parameter that
  is absent, empty or a comma-separated list of such pieces; a flag that is absent or such
  a piece.
\<close>

definition digit_string :: "string \<Rightarrow> bool" where
  "digit_string w = (w \<noteq> [] \<and> length w \<le> 18 \<and> (\<forall>c\<in>set w. digit_of c \<noteq> None))"

definition ids_param_ok :: "string option \<Rightarrow> bool" where
  "ids_param_ok p =
     (case p of None \<Rightarrow> True | Some v \<Rightarrow> v = [] \<or> (\<forall>w\<in>set (split_comma v). digit_string w))"

definition flag_param_ok :: "string option \<Rightarrow> bool" where
  "flag_param_ok p = (case p of None \<Rightarrow> True | Some v \<Rightarrow> digit_string v)"

text \<open>The status codes the interface documents; a call that raised gives none of them.\<close>

definition documented :: "(error + response) \<times> store \<Rightarrow> bool" where
  "documented outcome =
     (case fst outcome of
        Inl e \<Rightarrow> False
      | Inr r \<Rightarrow> status_code r \<in> {200, 201, 204, 400, 401, 404})"

text \<open>No user owns two rows of the table under one name; no two rows share a key.\<close>

definition unique_names :: "named list \<Rightarrow> bool" where
  "unique_names rows = distinct (map (\<lambda>t. (nuser t, nname t)) rows)"

text \<open>A request of user 1 with well-formed query parameters and an empty body.\<close>

definition demo_request :: request where
  "demo_request =
     \<lparr>req_user = Some 1,
      req_query_params = [(''tags'', ''1,2''), (''assigned_only'', ''1'')],
      req_data = []\<rparr>"

text \<open>Every object of a submitted list of nested descriptors has the key \<^verbatim>\<open>name\<close>.\<close>

definition named_descriptors :: "val option \<Rightarrow> bool" where
  "named_descriptors v =
     (case v of
        Some (VList items) \<Rightarrow>
          list_all (\<lambda>i. case i of VObj d \<Rightarrow> map_of d ''name'' \<noteq> None | _ \<Rightarrow> True) items
      | _ \<Rightarrow> True)"

text \<open>A partial update of user 1 with well-formed query parameters and named descriptors.\<close>

definition demo_patch :: request where
  "demo_patch =
     \<lparr>req_user = Some 1,
      req_query_params = [(''tags'', ''1,2''), (''assigned_only'', ''1'')],
      req_data = [(''title'', VText ''New''), (''price'', VNum 250),
                  (''tags'', VList [VObj [(''name'', VText ''x'')], VObj [(''name'', VText ''z'')]])]\<rparr>"

text \<open>
  The invalid Book payloads the claim lists. A missing required scalar and a descriptor
  without a name are omissions, which a partial validation does not report; a negative
  price is invalid under either validation. An upload is invalid when its image is a file
  that is no image.
\<close>

definition invalid_payload :: "bool \<Rightarrow> payload \<Rightarrow> bool" where
  "invalid_payload partial d =
     ((\<not> partial \<and> (map_of d ''title'' = None \<or> map_of d ''price'' = None))
      \<or> (case map_of d ''price'' of Some (VNum n) \<Rightarrow> n < 0 | _ \<Rightarrow> False)
      \<or> (\<not> partial \<and> (\<not> named_descriptors (map_of d ''tags'')
                       \<or> \<not> named_descriptors (map_of d ''authors''))))"

definition invalid_upload :: "payload \<Rightarrow> bool" where
  "invalid_upload d =
     (case map_of d ''image'' of Some (VFile is_image name) \<Rightarrow> \<not> is_image | _ \<Rightarrow> False)"

text \<open>
  Invalid requests of user 1: a body with a negative price; a body without a title whose
  tag descriptor has no name; an upload of a file that is no image.
\<close>

definition demo_negative_price :: request where
  "demo_negative_price =
     \<lparr>req_user = Some 1, req_query_params = [],
      req_data = [(''title'', VText ''T''), (''price'', VNum (- 5))]\<rparr>"

definition demo_nameless :: request where
  "demo_nameless =
     \<lparr>req_user = Some 1, req_query_params = [],
      req_data = [(''price'', VNum 100), (''tags'', VList [VObj []])]\<rparr>"

definition demo_not_an_image :: request where
  "demo_not_an_image =
     \<lparr>req_user = Some 1, req_query_params = [],
      req_data = [(''image'', VFile False ''notanimage'')]\<rparr>"

text \<open>
  The primary keys of the store: in each table no two rows share an identifier, and every
  identifier in use lies below the next one to be handed out.
\<close>

definition keys_ok :: "('a \<Rightarrow> nat) \<Rightarrow> 'a list \<Rightarrow> nat \<Rightarrow> bool" where
  "keys_ok key rows nxt = (distinct (map key rows) \<and> (\<forall>r\<in>set rows. key r < nxt))"

definition store_ok :: "store \<Rightarrow> bool" where
  "store_ok s =
     (keys_ok bid (books s) (next_book_id s)
      \<and> keys_ok nid (tags s) (next_tag_id s)
      \<and> keys_ok nid (authors s) (next_author_id s))"

text \<open>
  A key that is present replaces the links of the book. Compared with the table before:
  the rows that were there are still there, in place; the rows that came new belong to the
  user and carry submitted names; the identifiers linked to the book are exactly those of
  the user's records under a submitted name, which are the ones the user had before
  together with the new rows; and every submitted name has a record of the user that is
  linked to the book.
\<close>

definition replaced ::
  "nat \<Rightarrow> string list \<Rightarrow> nat \<Rightarrow> named list \<Rightarrow> named list \<Rightarrow> (nat \<times> nat) list \<Rightarrow> bool" where
  "replaced u names b before after links =
     (take (length before) after = before
      \<and> (\<forall>c\<in>set (drop (length before) after). nuser c = u \<and> nname c \<in> set names)
      \<and> linked b links = resolved_ids u names after
      \<and> linked b links
           = resolved_ids u names before \<union> set (map nid (drop (length before) after))
      \<and> (\<forall>n\<in>set names.
            \<exists>t\<in>set after. nuser t = u \<and> nname t = n \<and> nid t \<in> linked b links))"

section \<open>The reconciliation loop\<close>

lemma get_or_create_tags_reconcile:
  "get_or_create_tags u ds book s =
     (case reconcile u ds (bid book) (tags s) (next_tag_id s) (book_tags s) of
        Inl e \<Rightarrow> Inl e
      | Inr (rows, nxt, m) \<Rightarrow> Inr (s\<lparr>tags := rows, next_tag_id := nxt, book_tags := m\<rparr>))"
proof (induction ds arbitrary: s)
  case Nil
  show ?case by simp
next
  case (Cons d ds)
  show ?case
    by (cases "get_or_create u d (tags s) (next_tag_id s)") (auto simp: Cons.IH split: prod.splits sum.splits)
qed

lemma get_or_create_authors_reconcile:
  "get_or_create_authors u ds book s =
     (case reconcile u ds (bid book) (authors s) (next_author_id s) (book_authors s) of
        Inl e \<Rightarrow> Inl e
      | Inr (rows, nxt, m) \<Rightarrow> Inr (s\<lparr>authors := rows, next_author_id := nxt, book_authors := m\<rparr>))"
proof (induction ds arbitrary: s)
  case Nil
  show ?case by simp
next
  case (Cons d ds)
  show ?case
    by (cases "get_or_create u d (authors s) (next_author_id s)") (auto simp: Cons.IH split: prod.splits sum.splits)
qed

lemma matching_Nil_iff: "matching u (Some n) rows = [] \<longleftrightarrow> \<not> owns u n rows"
  by (auto simp: matching_def owns_def filter_empty_conv)

lemma get_or_create_cases:
  assumes "get_or_create u (Some n) rows nxt = Inr (obj, created, rows', nxt')"
  shows "(\<not> owns u n rows \<and> obj = \<lparr>nid = nxt, nuser = u, nname = n\<rparr> \<and> rows' = rows @ [obj] \<and> nxt' = Suc nxt)
       \<or> (matching u (Some n) rows = [obj] \<and> rows' = rows \<and> nxt' = nxt)"
  using assms unfolding get_or_create_def
  by (auto simp: matching_Nil_iff[symmetric] Let_def split: list.splits)

lemma matching_single:
  assumes "matching u (Some n) rows = [obj]"
  shows "obj \<in> set rows" "nuser obj = u" "nname obj = n"
    "\<And>t. t \<in> set rows \<Longrightarrow> nuser t = u \<Longrightarrow> nname t = n \<Longrightarrow> t = obj"
proof -
  have s: "set (matching u (Some n) rows) = {obj}" using assms by simp
  then have m: "obj \<in> set (matching u (Some n) rows)" by simp
  from m show "obj \<in> set rows" "nuser obj = u" "nname obj = n" by (auto simp: matching_def)
  fix t assume "t \<in> set rows" "nuser t = u" "nname t = n"
  then have "t \<in> set (matching u (Some n) rows)" by (simp add: matching_def)
  with s show "t = obj" by simp
qed

lemma reconcile_named:
  assumes "reconcile u (map Some names) b rows nxt m = Inr (rows', nxt', m')"
  shows "\<exists>created. rows' = rows @ created
           \<and> (\<forall>c\<in>set created. nuser c = u \<and> nname c \<in> set names \<and> \<not> owns u (nname c) rows)
           \<and> distinct (map nname created)
           \<and> (\<forall>n\<in>set names. \<not> owns u n rows \<longrightarrow> n \<in> nname ` set created)
           \<and> set m' = set m \<union> (\<lambda>t. (b, nid t)) ` {t \<in> set rows'. nuser t = u \<and> nname t \<in> set names}"
  using assms
proof (induction names arbitrary: rows nxt m)
  case Nil
  then show ?case by auto
next
  case (Cons n ns)
  from Cons.prems obtain obj created rows1 nxt1 where
    g: "get_or_create u (Some n) rows nxt = Inr (obj, created, rows1, nxt1)"
    and r: "reconcile u (map Some ns) b rows1 nxt1 (m2m_add b (nid obj) m) = Inr (rows', nxt', m')"
    by (auto split: sum.splits)
  from Cons.IH[OF r] obtain cr where
    cr1: "rows' = rows1 @ cr"
    and cr2: "\<forall>c\<in>set cr. nuser c = u \<and> nname c \<in> set ns \<and> \<not> owns u (nname c) rows1"
    and cr3: "distinct (map nname cr)"
    and cr4: "\<forall>n\<in>set ns. \<not> owns u n rows1 \<longrightarrow> n \<in> nname ` set cr"
    and cr5: "set m' = set (m2m_add b (nid obj) m) \<union> (\<lambda>t. (b, nid t)) ` {t \<in> set rows'. nuser t = u \<and> nname t \<in> set ns}"
    by blast
  have madd: "set (m2m_add b (nid obj) m) = insert (b, nid obj) (set m)"
    by (auto simp: m2m_add_def)
  let ?img = "\<lambda>N. (\<lambda>t. (b, nid t)) ` {t \<in> set rows'. nuser t = u \<and> nname t \<in> N}"
  from get_or_create_cases[OF g] show ?case
  proof (elim disjE conjE)
    assume fresh: "\<not> owns u n rows" and obj: "obj = \<lparr>nid = nxt, nuser = u, nname = n\<rparr>"
      and rows1: "rows1 = rows @ [obj]"
    have ou: "nuser obj = u" and on: "nname obj = n" using obj by simp_all
    have own1: "\<And>k. owns u k rows1 \<longleftrightarrow> owns u k rows \<or> k = n"
      using ou on by (auto simp: owns_def rows1)
    have notn: "\<forall>c\<in>set cr. nname c \<noteq> n"
      using cr2 own1 by blast
    have 1: "rows' = rows @ (obj # cr)" using cr1 rows1 by simp
    have 2: "\<forall>c\<in>set (obj # cr). nuser c = u \<and> nname c \<in> set (n # ns) \<and> \<not> owns u (nname c) rows"
      using cr2 own1 ou on fresh by auto
    have 3: "distinct (map nname (obj # cr))"
      using cr3 notn on by (auto simp: image_iff)
    have 4: "\<forall>k\<in>set (n # ns). \<not> owns u k rows \<longrightarrow> k \<in> nname ` set (obj # cr)"
      using cr4 own1 on by auto
    have only: "\<forall>t\<in>set rows'. nuser t = u \<and> nname t = n \<longrightarrow> t = obj"
      using 1 fresh notn by (auto simp: owns_def)
    have objin: "obj \<in> set rows'" using 1 by simp
    have "{t \<in> set rows'. nuser t = u \<and> nname t \<in> set (n # ns)}
            = insert obj {t \<in> set rows'. nuser t = u \<and> nname t \<in> set ns}"
    proof (intro equalityI subsetI)
      fix t assume "t \<in> {t \<in> set rows'. nuser t = u \<and> nname t \<in> set (n # ns)}"
      then have a: "t \<in> set rows'" "nuser t = u" "nname t = n \<or> nname t \<in> set ns" by simp_all
      show "t \<in> insert obj {t \<in> set rows'. nuser t = u \<and> nname t \<in> set ns}"
      proof (cases "nname t = n")
        case True
        with a only have "t = obj" by blast
        then show ?thesis by simp
      next
        case False
        with a show ?thesis by simp
      qed
    next
      fix t assume "t \<in> insert obj {t \<in> set rows'. nuser t = u \<and> nname t \<in> set ns}"
      then have "t = obj \<or> (t \<in> set rows' \<and> nuser t = u \<and> nname t \<in> set ns)" by simp
      then show "t \<in> {t \<in> set rows'. nuser t = u \<and> nname t \<in> set (n # ns)}"
        using objin ou on by auto
    qed
    then have i: "?img (set (n # ns)) = insert (b, nid obj) (?img (set ns))"
      by (simp only: image_insert)
    have 5: "set m' = set m \<union> ?img (set (n # ns))"
      unfolding i cr5 madd by (simp only: Un_insert_left Un_insert_right)
    show ?thesis
      apply (rule exI[of _ "obj # cr"])
      apply (intro conjI)
          apply (rule 1)
         apply (rule 2)
        apply (rule 3)
       apply (rule 4)
      apply (rule 5)
      done
  next
    assume mt: "matching u (Some n) rows = [obj]" and rows1: "rows1 = rows"
    note ms = matching_single[OF mt]
    have own: "owns u n rows" unfolding owns_def using ms(1,2,3) by blast
    have notn: "\<forall>c\<in>set cr. nname c \<noteq> n"
      using cr2 own rows1 by blast
    have 1: "rows' = rows @ cr" using cr1 rows1 by simp
    have 2: "\<forall>c\<in>set cr. nuser c = u \<and> nname c \<in> set (n # ns) \<and> \<not> owns u (nname c) rows"
      using cr2 rows1 by auto
    have 4: "\<forall>k\<in>set (n # ns). \<not> owns u k rows \<longrightarrow> k \<in> nname ` set cr"
      using cr4 own rows1 by auto
    have only: "\<forall>t\<in>set rows'. nuser t = u \<and> nname t = n \<longrightarrow> t = obj"
      using 1 ms(4) notn by auto
    have objin: "obj \<in> set rows'" using 1 ms(1) by simp
    have "{t \<in> set rows'. nuser t = u \<and> nname t \<in> set (n # ns)}
            = insert obj {t \<in> set rows'. nuser t = u \<and> nname t \<in> set ns}"
    proof (intro equalityI subsetI)
      fix t assume "t \<in> {t \<in> set rows'. nuser t = u \<and> nname t \<in> set (n # ns)}"
      then have a: "t \<in> set rows'" "nuser t = u" "nname t = n \<or> nname t \<in> set ns" by simp_all
      show "t \<in> insert obj {t \<in> set rows'. nuser t = u \<and> nname t \<in> set ns}"
      proof (cases "nname t = n")
        case True
        with a only have "t = obj" by blast
        then show ?thesis by simp
      next
        case False
        with a show ?thesis by simp
      qed
    next
      fix t assume "t \<in> insert obj {t \<in> set rows'. nuser t = u \<and> nname t \<in> set ns}"
      then have "t = obj \<or> (t \<in> set rows' \<and> nuser t = u \<and> nname t \<in> set ns)" by simp
      then show "t \<in> {t \<in> set rows'. nuser t = u \<and> nname t \<in> set (n # ns)}"
        using objin ms(2) ms(3) by auto
    qed
    then have i: "?img (set (n # ns)) = insert (b, nid obj) (?img (set ns))"
      by (simp only: image_insert)
    have 5: "set m' = set m \<union> ?img (set (n # ns))"
      unfolding i cr5 madd by (simp only: Un_insert_left Un_insert_right)
    show ?thesis
      apply (rule exI[of _ cr])
      apply (intro conjI)
          apply (rule 1)
         apply (rule 2)
        apply (rule cr3)
       apply (rule 4)
      apply (rule 5)
      done
  qed
qed


lemma matching_append: "matching u d (xs @ ys) = matching u d xs @ matching u d ys"
  by (simp add: matching_def)

lemma reconcile_single:
  assumes "reconcile u (map Some names) b rows nxt m = Inr (rows', nxt', m')"
  shows "\<forall>n\<in>set names. length (matching u (Some n) rows') = 1"
  using assms
proof (induction names arbitrary: rows nxt m)
  case Nil
  then show ?case by simp
next
  case (Cons n ns)
  from Cons.prems obtain obj created rows1 nxt1 where
    g: "get_or_create u (Some n) rows nxt = Inr (obj, created, rows1, nxt1)"
    and r: "reconcile u (map Some ns) b rows1 nxt1 (m2m_add b (nid obj) m) = Inr (rows', nxt', m')"
    by (auto split: sum.splits)
  have ih: "\<forall>k\<in>set ns. length (matching u (Some k) rows') = 1"
    by (rule Cons.IH[OF r])
  from reconcile_named[OF r] obtain cr where
    cr1: "rows' = rows1 @ cr"
    and cr2: "\<forall>c\<in>set cr. nuser c = u \<and> nname c \<in> set ns \<and> \<not> owns u (nname c) rows1"
    by blast
  have one1: "matching u (Some n) rows1 = [obj]"
    using get_or_create_cases[OF g]
    by (auto simp: matching_append matching_def owns_def filter_empty_conv)
  then have own1: "owns u n rows1"
    using matching_single(1,2,3)[OF one1] unfolding owns_def by blast
  have "\<forall>c\<in>set cr. nname c \<noteq> n" using cr2 own1 by blast
  then have "matching u (Some n) cr = []"
    by (auto simp: matching_def filter_empty_conv)
  then have "length (matching u (Some n) rows') = 1"
    by (simp add: cr1 matching_append one1)
  with ih show ?case by simp
qed

lemma linked_clear [simp]: "linked b (m2m_clear b m) = {}"
  by (auto simp: linked_def m2m_clear_def)

lemma linked_set: "linked b m = {t. (b, t) \<in> set m}"
  by (force simp: linked_def)

lemma reconcile_linked:
  assumes "reconcile u (map Some names) b rows nxt m = Inr (rows', nxt', m')"
  shows "linked b m' = linked b m \<union> resolved_ids u names rows'"
proof -
  from reconcile_named[OF assms] have
    "set m' = set m \<union> (\<lambda>t. (b, nid t)) ` {t \<in> set rows'. nuser t = u \<and> nname t \<in> set names}"
    by blast
  then show ?thesis
    unfolding linked_set resolved_ids_def by auto
qed

lemma reconcile_reconciled:
  assumes "reconcile u (map Some names) b rows nxt m = Inr (rows', nxt', m')"
  shows "reconciled u names b rows rows' m'"
proof -
  from reconcile_named[OF assms] obtain created where
    c1: "rows' = rows @ created"
    and c2: "\<forall>c\<in>set created. nuser c = u \<and> nname c \<in> set names \<and> \<not> owns u (nname c) rows"
    and c3: "distinct (map nname created)"
    and c5: "set m' = set m \<union> (\<lambda>t. (b, nid t)) ` {t \<in> set rows'. nuser t = u \<and> nname t \<in> set names}"
    by blast
  have l: "\<forall>t\<in>set rows. nuser t = u \<and> nname t \<in> set names \<longrightarrow> (b, nid t) \<in> set m'"
    unfolding c5 c1 by auto
  show ?thesis
    unfolding reconciled_def
    using c2 c3 l reconcile_single[OF assms] by (simp add: c1)
qed

section \<open>The serializer's create and update, step by step\<close>

lemma map_of_pop_other:
  "k' \<noteq> k \<Longrightarrow> map_of (snd (pop k d)) k' = map_of d k'"
  unfolding pop_def by (induction d) auto

lemma fst_pop [simp]: "fst (pop k d) = map_of d k"
  by (simp add: pop_def)

lemma descriptors_Some:
  "descriptors a = Inr (Some ds) \<longleftrightarrow> a = Some (ANested ds)"
  by (auto simp: descriptors_def split: option.splits attr.splits)

lemma descriptors_None:
  "descriptors a = Inr None \<longleftrightarrow> a = None"
  by (auto simp: descriptors_def split: option.splits attr.splits)

lemma tags_step:
  assumes "get_or_create_tags u (map Some names) book s = Inr s1"
  shows "reconciled u names (bid book) (tags s) (tags s1) (book_tags s1)"
    and "linked (bid book) (book_tags s1) = linked (bid book) (book_tags s) \<union> resolved_ids u names (tags s1)"
    and "authors s1 = authors s" and "book_authors s1 = book_authors s" and "books s1 = books s"
proof -
  from assms obtain rows nxt m where
    r: "reconcile u (map Some names) (bid book) (tags s) (next_tag_id s) (book_tags s) = Inr (rows, nxt, m)"
    and s1: "s1 = s\<lparr>tags := rows, next_tag_id := nxt, book_tags := m\<rparr>"
    unfolding get_or_create_tags_reconcile by (auto split: sum.splits)
  show "reconciled u names (bid book) (tags s) (tags s1) (book_tags s1)"
    using reconcile_reconciled[OF r] by (simp add: s1)
  show "linked (bid book) (book_tags s1) = linked (bid book) (book_tags s) \<union> resolved_ids u names (tags s1)"
    using reconcile_linked[OF r] by (simp add: s1)
  show "authors s1 = authors s" "book_authors s1 = book_authors s" "books s1 = books s"
    by (simp_all add: s1)
qed

lemma tags_frame:
  assumes "get_or_create_tags u ds book s = Inr s1"
  shows "authors s1 = authors s \<and> book_authors s1 = book_authors s \<and> books s1 = books s"
  using assms unfolding get_or_create_tags_reconcile by (auto split: sum.splits)

lemma authors_step:
  assumes "get_or_create_authors u (map Some names) book s = Inr s1"
  shows "reconciled u names (bid book) (authors s) (authors s1) (book_authors s1)"
    and "linked (bid book) (book_authors s1) = linked (bid book) (book_authors s) \<union> resolved_ids u names (authors s1)"
proof -
  from assms obtain rows nxt m where
    r: "reconcile u (map Some names) (bid book) (authors s) (next_author_id s) (book_authors s) = Inr (rows, nxt, m)"
    and s1: "s1 = s\<lparr>authors := rows, next_author_id := nxt, book_authors := m\<rparr>"
    unfolding get_or_create_authors_reconcile by (auto split: sum.splits)
  show "reconciled u names (bid book) (authors s) (authors s1) (book_authors s1)"
    using reconcile_reconciled[OF r] by (simp add: s1)
  show "linked (bid book) (book_authors s1) = linked (bid book) (book_authors s) \<union> resolved_ids u names (authors s1)"
    using reconcile_linked[OF r] by (simp add: s1)
qed

lemma authors_frame:
  assumes "get_or_create_authors u ds book s = Inr s1"
  shows "tags s1 = tags s \<and> book_tags s1 = book_tags s \<and> books s1 = books s"
  using assms unfolding get_or_create_authors_reconcile by (auto split: sum.splits)

lemma save_frame [simp]:
  "tags (save b s) = tags s" "book_tags (save b s) = book_tags s"
  "authors (save b s) = authors s" "book_authors (save b s) = book_authors s"
  by (simp_all add: save_def)

text \<open>The steps of \<open>update\<close>, named.\<close>

lemma update_steps:
  assumes "update u instance vd s = Inr (obj, s')"
  obtains tags_opt authors_opt s1 s2 where
    "descriptors (map_of vd ''tags'') = Inr tags_opt"
    "descriptors (map_of vd ''authors'') = Inr authors_opt"
    "(case tags_opt of None \<Rightarrow> Inr s
      | Some ts \<Rightarrow> get_or_create_tags u ts instance (s\<lparr>book_tags := m2m_clear (bid instance) (book_tags s)\<rparr>)) = Inr s1"
    "(case authors_opt of None \<Rightarrow> Inr s1
      | Some as \<Rightarrow> get_or_create_authors u as instance (s1\<lparr>book_authors := m2m_clear (bid instance) (book_authors s1)\<rparr>)) = Inr s2"
    "obj = setattrs (snd (pop ''authors'' (snd (pop ''tags'' vd)))) instance"
    "s' = save obj s2"
proof -
  have m: "map_of (snd (pop ''tags'' vd)) ''authors'' = map_of vd ''authors''"
    by (rule map_of_pop_other) simp
  from assms show ?thesis
    unfolding update_def fst_pop m
    by (auto split: sum.splits simp: Let_def intro: that)
qed


lemma create_steps:
  assumes "create u vd s = Inr (obj, s')"
  obtains tags_opt authors_opt s1 s2 where
    "descriptors (map_of vd ''tags'') = Inr tags_opt"
    "descriptors (map_of vd ''authors'') = Inr authors_opt"
    "book_objects_create (snd (pop ''authors'' (snd (pop ''tags'' vd)))) s = Inr (obj, s1)"
    "get_or_create_tags u (case tags_opt of None \<Rightarrow> [] | Some ts \<Rightarrow> ts) obj s1 = Inr s2"
    "get_or_create_authors u (case authors_opt of None \<Rightarrow> [] | Some as \<Rightarrow> as) obj s2 = Inr s'"
proof -
  have m: "map_of (snd (pop ''tags'' vd)) ''authors'' = map_of vd ''authors''"
    by (rule map_of_pop_other) simp
  from assms show ?thesis
    unfolding create_def fst_pop m
    by (auto split: sum.splits prod.splits intro: that)
qed

lemma book_objects_create_frame:
  assumes "book_objects_create kw s = Inr (b, s1)"
  shows "tags s1 = tags s \<and> authors s1 = authors s \<and> book_tags s1 = book_tags s
         \<and> book_authors s1 = book_authors s \<and> bid b = next_book_id s
         \<and> books s1 = books s @ [b]"
proof -
  have bid_setattr: "\<And>b kv. bid (setattr b kv) = bid b"
    by (rule setattr.induct[where P="\<lambda>b kv. bid (setattr b kv) = bid b"]) auto
  have bid_setattrs: "\<And>b. bid (setattrs kw b) = bid b"
    unfolding setattrs_def by (induction kw) (auto simp: bid_setattr)
  from assms show ?thesis
    unfolding book_objects_create_def
    by (auto simp: Let_def bid_setattrs split: option.splits attr.splits)
qed

section \<open>Links of other books, and the table before\<close>

lemma linked_append: "linked b (m @ m') = linked b m \<union> linked b m'"
  by (auto simp: linked_def)

lemma linked_add_other: "b' \<noteq> b \<Longrightarrow> linked b' (m2m_add b t m) = linked b' m"
  by (auto simp: linked_def m2m_add_def)

lemma linked_clear_other: "b' \<noteq> b \<Longrightarrow> linked b' (m2m_clear b m) = linked b' m"
  by (auto simp: linked_def m2m_clear_def)

lemma reconcile_other_links:
  assumes "reconcile u ds b rows nxt m = Inr (rows', nxt', m')" and "b' \<noteq> b"
  shows "linked b' m' = linked b' m"
  using assms(1)
proof (induction ds arbitrary: rows nxt m)
  case Nil
  then show ?case by simp
next
  case (Cons d ds)
  from Cons.prems obtain obj created rows1 nxt1 where
    g: "get_or_create u d rows nxt = Inr (obj, created, rows1, nxt1)"
    and r: "reconcile u ds b rows1 nxt1 (m2m_add b (nid obj) m) = Inr (rows', nxt', m')"
    by (auto split: sum.splits)
  from Cons.IH[OF r] show ?case by (simp add: linked_add_other[OF assms(2)])
qed

lemma tags_other_links:
  assumes "get_or_create_tags u ds book s = Inr s1" and "b' \<noteq> bid book"
  shows "linked b' (book_tags s1) = linked b' (book_tags s)"
proof -
  from assms(1) obtain rows nxt m where
    r: "reconcile u ds (bid book) (tags s) (next_tag_id s) (book_tags s) = Inr (rows, nxt, m)"
    and s1: "s1 = s\<lparr>tags := rows, next_tag_id := nxt, book_tags := m\<rparr>"
    unfolding get_or_create_tags_reconcile by (auto split: sum.splits)
  from reconcile_other_links[OF r assms(2)] show ?thesis by (simp add: s1)
qed

lemma authors_other_links:
  assumes "get_or_create_authors u ds book s = Inr s1" and "b' \<noteq> bid book"
  shows "linked b' (book_authors s1) = linked b' (book_authors s)"
proof -
  from assms(1) obtain rows nxt m where
    r: "reconcile u ds (bid book) (authors s) (next_author_id s) (book_authors s)
          = Inr (rows, nxt, m)"
    and s1: "s1 = s\<lparr>authors := rows, next_author_id := nxt, book_authors := m\<rparr>"
    unfolding get_or_create_authors_reconcile by (auto split: sum.splits)
  from reconcile_other_links[OF r assms(2)] show ?thesis by (simp add: s1)
qed

text \<open>What \<open>reconciled\<close> and the resolved identifiers say about the table before.\<close>

lemma resolved_ids_append:
  "resolved_ids u names (xs @ ys) = resolved_ids u names xs \<union> resolved_ids u names ys"
  by (auto simp: resolved_ids_def)

lemma reconciled_facts:
  assumes "reconciled u names b before after links"
    and "linked b links = resolved_ids u names after"
  shows "take (length before) after = before"
    and "\<forall>c\<in>set (drop (length before) after). nuser c = u \<and> nname c \<in> set names"
    and "linked b links
           = resolved_ids u names before \<union> set (map nid (drop (length before) after))"
    and "\<forall>n\<in>set names. \<exists>t\<in>set after. nuser t = u \<and> nname t = n \<and> nid t \<in> linked b links"
proof -
  let ?new = "drop (length before) after"
  from assms(1) show p: "take (length before) after = before"
    and c: "\<forall>c\<in>set ?new. nuser c = u \<and> nname c \<in> set names"
    unfolding reconciled_def by simp_all
  have a: "after = before @ ?new" using p by (metis append_take_drop_id)
  have "resolved_ids u names ?new = set (map nid ?new)"
    unfolding resolved_ids_def using c by (simp add: filter_id_conv)
  then have "resolved_ids u names after
               = resolved_ids u names before \<union> set (map nid ?new)"
    using resolved_ids_append[of u names before ?new] a by simp
  then show "linked b links = resolved_ids u names before \<union> set (map nid ?new)"
    using assms(2) by simp
  show "\<forall>n\<in>set names. \<exists>t\<in>set after. nuser t = u \<and> nname t = n \<and> nid t \<in> linked b links"
  proof
    fix n assume n: "n \<in> set names"
    with assms(1) have "length (matching u (Some n) after) = 1"
      unfolding reconciled_def by simp
    then obtain t where "t \<in> set (matching u (Some n) after)"
      by (cases "matching u (Some n) after") auto
    then have t: "t \<in> set after" "nuser t = u" "nname t = n" by (auto simp: matching_def)
    with n have "nid t \<in> resolved_ids u names after" by (auto simp: resolved_ids_def)
    with t assms(2) show "\<exists>t\<in>set after. nuser t = u \<and> nname t = n \<and> nid t \<in> linked b links"
      by auto
  qed
qed

lemma replaced_from_steps:
  assumes "reconciled u names b before after links"
    and "linked b links = resolved_ids u names after"
  shows "replaced u names b before after links"
  unfolding replaced_def
  using reconciled_facts[OF assms] assms(2) by (intro conjI)

lemma replaced_empty:
  assumes "replaced u [] b before after links"
  shows "linked b links = {}" and "after = before"
proof -
  from assms have p: "take (length before) after = before"
    and c: "\<forall>c\<in>set (drop (length before) after). nname c \<in> set []"
    and l: "linked b links = resolved_ids u [] after"
    unfolding replaced_def by simp_all
  from l show "linked b links = {}" by (simp add: resolved_ids_def)
  from c have "drop (length before) after = []" by (cases "drop (length before) after") auto
  with p show "after = before" by (metis append_Nil2 append_take_drop_id)
qed

section \<open>Querysets: what they hold and in which order\<close>

lemma sorted_wrt_remdups: "sorted_wrt P xs \<Longrightarrow> sorted_wrt P (remdups xs)"
  by (induction xs) auto

lemma set_listing [simp]: "set (distinct_rows (order_by_desc key rows)) = set rows"
  by (simp add: distinct_rows_def order_by_desc_def)

lemma distinct_listing [simp]: "distinct (distinct_rows rows)"
  by (simp add: distinct_rows_def)

lemma sorted_listing:
  "sorted_wrt (\<lambda>a b. key b \<le> key a) (distinct_rows (order_by_desc key rows))"
proof -
  have "sorted (map key (sort_key key rows))" by (rule sorted_sort_key)
  then have "sorted_wrt (\<lambda>a b. key a \<le> key b) (sort_key key rows)"
    by (simp add: sorted_map)
  then have "sorted_wrt (\<lambda>a b. key b \<le> key a) (rev (sort_key key rows))"
    by (simp add: sorted_wrt_rev)
  then show ?thesis
    unfolding distinct_rows_def order_by_desc_def by (rule sorted_wrt_remdups)
qed

lemma distinct_map_listing:
  assumes "distinct (map key rows)"
  shows "distinct (map key (distinct_rows (order_by_desc key (filter P rows))))"
proof -
  have "distinct (map key (filter P rows))" using assms by (rule distinct_map_filter)
  then have "distinct (map key (sort_key key (filter P rows)))"
    by (metis distinct_map distinct_sort set_sort inj_on_def)
  then have "distinct (map key (rev (sort_key key (filter P rows))))"
    by (simp add: distinct_map rev_map[symmetric])
  moreover have "distinct (rev (sort_key key (filter P rows)))"
    using calculation by (simp add: distinct_map)
  ultimately show ?thesis
    unfolding distinct_rows_def order_by_desc_def by (simp add: distinct_remdups_id)
qed

lemma set_filter_id_in:
  "set (filter_id_in links ids queryset) =
     {b \<in> set queryset. references links b (Some ids)}"
  by (auto simp: filter_id_in_def references_def list_ex_iff)

lemma set_filter_book_notnull:
  "set (filter_book_notnull links queryset) = {t \<in> set queryset. assigned links t}"
  by (auto simp: filter_book_notnull_def assigned_def list_ex_iff)

text \<open>The two filter steps of \<open>get_queryset\<close>, named.\<close>

lemma get_queryset_steps:
  assumes "get_queryset u q s = Inr result"
  obtains queryset where
    "result = distinct_rows (order_by_desc bid (filter (\<lambda>b. buser b = u) queryset))"
    "set queryset = {b \<in> set (books s). references (book_tags s) b (filter_ids ''tags'' q)
                        \<and> references (book_authors s) b (filter_ids ''authors'' q)}"
proof -
  from assms obtain q1 q2 where
    a: "(case map_of q ''tags'' of None \<Rightarrow> Inr (books s)
         | Some v \<Rightarrow> if v = [] then Inr (books s)
             else (case params_to_ints v of Inl e \<Rightarrow> Inl e
                   | Inr ids \<Rightarrow> Inr (filter_id_in (book_tags s) ids (books s)))) = Inr q1"
    and b: "(case map_of q ''authors'' of None \<Rightarrow> Inr q1
         | Some v \<Rightarrow> if v = [] then Inr q1
             else (case params_to_ints v of Inl e \<Rightarrow> Inl e
                   | Inr ids \<Rightarrow> Inr (filter_id_in (book_authors s) ids q1))) = Inr q2"
    and r: "result = distinct_rows (order_by_desc bid (filter (\<lambda>b. buser b = u) q2))"
    unfolding get_queryset_def by (auto split: sum.splits)
  have s1: "set q1 = {b \<in> set (books s). references (book_tags s) b (filter_ids ''tags'' q)}"
    using a
    by (auto simp: filter_ids_def set_filter_id_in references_def
             split: option.splits if_splits sum.splits)
  have s2: "set q2 = {b \<in> set q1. references (book_authors s) b (filter_ids ''authors'' q)}"
    using b
    by (auto simp: filter_ids_def set_filter_id_in references_def
             split: option.splits if_splits sum.splits)
  show ?thesis
    by (rule that[OF r]) (auto simp: s1 s2)
qed

section \<open>Well-formed query parameters parse\<close>

lemma digit_not_space: "digit_of c \<noteq> None \<Longrightarrow> \<not> is_space c"
  by (auto simp: digit_of_def is_space_def split: if_splits)

lemma digit_not_sign:
  "digit_of c \<noteq> None \<Longrightarrow> c \<noteq> CHR ''-'' \<and> c \<noteq> CHR ''+'' \<and> c \<noteq> CHR ''_''"
  by (auto simp: digit_of_def)

lemma digits_returns:
  "\<forall>c\<in>set w. digit_of c \<noteq> None \<Longrightarrow> w \<noteq> [] \<or> after \<Longrightarrow> \<exists>n. digits acc after w = Some n"
proof (induction w arbitrary: acc after)
  case Nil
  then show ?case by simp
next
  case (Cons c cs)
  then obtain d where d: "digit_of c = Some d" by auto
  have "c \<noteq> CHR ''_''" using d digit_not_sign[of c] by simp
  moreover have "\<exists>n. digits (10 * acc + int d) True cs = Some n"
    using Cons.IH[of True] Cons.prems by simp
  ultimately show ?case using d by simp
qed

lemma strip_digit_string:
  assumes "digit_string w"
  shows "strip w = w"
proof -
  from assms obtain c cs where w: "w = c # cs" by (cases w) (auto simp: digit_string_def)
  have all: "\<forall>c\<in>set w. \<not> is_space c"
    using assms digit_not_space by (auto simp: digit_string_def)
  have 1: "dropWhile is_space w = w" using all w by simp
  have "rev w \<noteq> []" using w by simp
  then obtain e es where r: "rev w = e # es" by (cases "rev w") auto
  have "e \<in> set w" using r by (metis list.set_intros(1) set_rev)
  then have "\<not> is_space e" using all by blast
  then have 2: "dropWhile is_space (rev w) = rev w" using r by simp
  show ?thesis by (simp add: strip_def 1 2)
qed

lemma py_int_returns:
  assumes "digit_string w"
  shows "\<exists>n. py_int w = Inr n"
proof -
  from assms obtain c cs where w: "w = c # cs" by (cases w) (auto simp: digit_string_def)
  have all: "\<forall>c\<in>set w. digit_of c \<noteq> None" using assms by (simp add: digit_string_def)
  then have "digit_of c \<noteq> None" using w by simp
  then have c: "c \<noteq> CHR ''-''" "c \<noteq> CHR ''+''" using digit_not_sign by blast+
  from digits_returns[OF all, of False 0] w obtain n where "digits 0 False (c # cs) = Some n"
    by auto
  then show ?thesis
    unfolding py_int_def strip_digit_string[OF assms] using c by (simp add: w)
qed

lemma ints_of_returns:
  "\<forall>w\<in>set ws. digit_string w \<Longrightarrow> \<exists>ns. ints_of ws = Inr ns"
proof (induction ws)
  case Nil
  then show ?case by simp
next
  case (Cons w ws)
  then obtain n ns where "py_int w = Inr n" "ints_of ws = Inr ns"
    using py_int_returns by (metis list.set_intros(1) list.set_intros(2))
  then show ?case by simp
qed

lemma get_queryset_returns:
  assumes "ids_param_ok (map_of q ''tags'')" and "ids_param_ok (map_of q ''authors'')"
  shows "\<exists>result. get_queryset u q s = Inr result"
proof -
  have p: "\<exists>ids. params_to_ints v = Inr ids" if "ids_param_ok (Some v)" "v \<noteq> []" for v
    using that ints_of_returns unfolding ids_param_ok_def params_to_ints_def by auto
  show ?thesis
  proof (cases "map_of q ''tags''")
    case None
    show ?thesis
    proof (cases "map_of q ''authors''")
      case None
      with \<open>map_of q ''tags'' = None\<close> show ?thesis by (simp add: get_queryset_def)
    next
      case (Some a)
      with assms(2) p[of a] \<open>map_of q ''tags'' = None\<close> show ?thesis
        by (cases "a = []") (auto simp: get_queryset_def)
    qed
  next
    case (Some t)
    note t = this
    show ?thesis
    proof (cases "map_of q ''authors''")
      case None
      with assms(1) p[of t] t show ?thesis
        by (cases "t = []") (auto simp: get_queryset_def)
    next
      case (Some a)
      with assms p[of t] p[of a] t show ?thesis
        by (cases "t = []"; cases "a = []") (auto simp: get_queryset_def)
    qed
  qed
qed

lemma attr_get_queryset_returns:
  assumes "flag_param_ok (map_of q ''assigned_only'')"
  shows "\<exists>result. attr_get_queryset k u q s = Inr result"
proof (cases "map_of q ''assigned_only''")
  case None
  then show ?thesis by (simp add: attr_get_queryset_def)
next
  case (Some v)
  with assms py_int_returns[of v] show ?thesis
    by (auto simp: attr_get_queryset_def flag_param_ok_def)
qed

lemma get_queryset_owned:
  assumes "get_queryset u q s = Inr result"
  shows "set result \<subseteq> {b \<in> set (books s). buser b = u}"
proof -
  from assms obtain queryset where
    r: "result = distinct_rows (order_by_desc bid (filter (\<lambda>b. buser b = u) queryset))"
    and q: "set queryset = {b \<in> set (books s). references (book_tags s) b (filter_ids ''tags'' q)
                        \<and> references (book_authors s) b (filter_ids ''authors'' q)}"
    by (rule get_queryset_steps)
  show ?thesis unfolding r using q by auto
qed

lemma attr_get_queryset_owned:
  assumes "attr_get_queryset k u q s = Inr result"
  shows "set result \<subseteq> {t \<in> set (rows_of k s). nuser t = u}" and "distinct result"
  using assms unfolding attr_get_queryset_def
  by (auto simp: Let_def set_filter_book_notnull split: sum.splits if_splits)

lemma get_object_not_owned:
  assumes "\<not> (\<exists>b\<in>set (books s). bid b = pk \<and> buser b = u)"
    and "get_queryset u q s = Inr result"
  shows "get_object u q pk s = Inr None"
proof -
  have "filter (\<lambda>b. bid b = pk) result = []"
    using get_queryset_owned[OF assms(2)] assms(1) by (auto simp: filter_empty_conv)
  then show ?thesis by (simp add: get_object_def assms(2))
qed

lemma attr_get_object_not_owned:
  assumes "\<not> (\<exists>t\<in>set (rows_of k s). nid t = pk \<and> nuser t = u)"
    and "attr_get_queryset k u q s = Inr result"
  shows "attr_get_object k u q pk s = Inr None"
proof -
  have "filter (\<lambda>t. nid t = pk) result = []"
    using attr_get_queryset_owned(1)[OF assms(2)] assms(1) by (auto simp: filter_empty_conv)
  then show ?thesis by (simp add: attr_get_object_def assms(2))
qed

section \<open>Validated data\<close>

lemma run_fields_Cons:
  assumes "run_fields cls partial d fs = (errs, ret)"
  shows "snd (run_fields cls partial d (f # fs)) =
           (if f \<in> set read_only_fields then ret
            else (case map_of d f of
                    None \<Rightarrow> ret
                  | Some v \<Rightarrow> (case validate_field partial f v of
                                Inl e \<Rightarrow> ret
                              | Inr a \<Rightarrow> (f, a) # ret)))"
    and "fst (run_fields cls partial d (f # fs)) =
           (if f \<in> set read_only_fields then errs
            else (case map_of d f of
                    None \<Rightarrow> if \<not> partial \<and> required cls f
                            then (f, Messages [''This field is required.'']) # errs else errs
                  | Some v \<Rightarrow> (case validate_field partial f v of
                                Inl e \<Rightarrow> (f, e) # errs
                              | Inr a \<Rightarrow> errs)))"
  using assms by (auto split: option.splits sum.splits)

lemma run_fields_keys:
  "fst ` set (snd (run_fields cls partial d fs)) \<subseteq> set fs - set read_only_fields"
proof (induction fs)
  case Nil
  show ?case by simp
next
  case (Cons f fs)
  obtain errs ret where r: "run_fields cls partial d fs = (errs, ret)"
    by (cases "run_fields cls partial d fs")
  have ih: "fst ` set ret \<subseteq> set fs - set read_only_fields" using Cons.IH by (simp add: r)
  show ?case
    unfolding run_fields_Cons(1)[OF r] using ih
    by (auto split: option.splits sum.splits)
qed

lemma map_of_run_fields:
  "map_of (snd (run_fields cls partial d fs)) f =
     (if f \<in> set fs \<and> f \<notin> set read_only_fields
      then (case map_of d f of
              None \<Rightarrow> None
            | Some v \<Rightarrow> (case validate_field partial f v of Inl e \<Rightarrow> None | Inr a \<Rightarrow> Some a))
      else None)"
proof (induction fs arbitrary: f)
  case Nil
  show ?case by simp
next
  case (Cons g fs)
  obtain errs ret where r: "run_fields cls partial d fs = (errs, ret)"
    by (cases "run_fields cls partial d fs")
  have ih: "\<And>f. map_of ret f =
     (if f \<in> set fs \<and> f \<notin> set read_only_fields
      then (case map_of d f of
              None \<Rightarrow> None
            | Some v \<Rightarrow> (case validate_field partial f v of Inl e \<Rightarrow> None | Inr a \<Rightarrow> Some a))
      else None)" using Cons.IH by (simp add: r)
  show ?case
  proof (cases "f = g")
    case True
    show ?thesis
      unfolding run_fields_Cons(1)[OF r] True
      by (simp add: ih split: option.splits sum.splits)
  next
    case False
    show ?thesis
      unfolding run_fields_Cons(1)[OF r] using False
      by (simp add: ih split: option.splits sum.splits)
  qed
qed

lemma run_validation_Inr:
  assumes "run_validation cls partial d = Inr vd"
  shows "vd = snd (run_fields cls partial d (meta_fields cls))"
    and "fst (run_fields cls partial d (meta_fields cls)) = []"
  using assms unfolding run_validation_def by (auto split: prod.splits list.splits)

lemma run_validation_Inl:
  assumes "fst (run_fields cls partial d (meta_fields cls)) \<noteq> []"
  shows "run_validation cls partial d = Inl (fst (run_fields cls partial d (meta_fields cls)))"
  using assms unfolding run_validation_def by (auto split: prod.splits list.splits)

lemma user_not_a_field: "''user'' \<notin> set (meta_fields cls)"
  by (cases cls) (simp_all add: meta_fields_def book_serializer_fields_def)

lemma validated_no_user:
  assumes "run_validation cls partial d = Inr vd"
  shows "''user'' \<notin> fst ` set vd"
  using run_fields_keys[of cls partial d "meta_fields cls"] user_not_a_field[of cls]
  unfolding run_validation_Inr(1)[OF assms] by blast

lemma pop_keys: "fst ` set (snd (pop k vd)) \<subseteq> fst ` set vd"
  by (auto simp: pop_def)

lemma bid_setattr [simp]: "bid (setattr b kv) = bid b"
  by (rule setattr.induct[where P="\<lambda>b kv. bid (setattr b kv) = bid b"]) auto

lemma bid_setattrs [simp]: "bid (setattrs vd b) = bid b"
  unfolding setattrs_def by (induction vd arbitrary: b) auto

lemma buser_setattr: "fst kv \<noteq> ''user'' \<Longrightarrow> buser (setattr b kv) = buser b"
  by (rule setattr.induct[where P="\<lambda>b kv. fst kv \<noteq> ''user'' \<longrightarrow> buser (setattr b kv) = buser b",
        THEN mp]) auto

lemma buser_setattrs: "''user'' \<notin> fst ` set vd \<Longrightarrow> buser (setattrs vd b) = buser b"
  unfolding setattrs_def by (induction vd arbitrary: b) (auto simp: buser_setattr)

lemma save_keeps_owners:
  assumes "distinct (map bid (books s))" and "x \<in> set (books s)"
    and "bid b = bid x" and "buser b = buser x"
  shows "map buser (books (save b s)) = map buser (books s)"
    and "map bid (books (save b s)) = map bid (books s)"
proof -
  have same: "\<forall>y\<in>set (books s). bid y = bid b \<longrightarrow> y = x"
    using assms(1,2,3) by (metis distinct_map inj_on_def)
  have in_ids: "bid b \<in> set (map bid (books s))" using assms(2,3) by force
  have "map buser (map (\<lambda>y. if bid y = bid b then b else y) (books s)) = map buser (books s)"
    using same assms(4) by (auto simp: map_eq_conv)
  then show "map buser (books (save b s)) = map buser (books s)"
    using in_ids by (simp add: save_def)
  have "map bid (map (\<lambda>y. if bid y = bid b then b else y) (books s)) = map bid (books s)"
    by (auto simp: map_eq_conv)
  then show "map bid (books (save b s)) = map bid (books s)"
    using in_ids by (simp add: save_def)
qed

lemma get_object_Some:
  assumes "get_object u q pk s = Inr (Some obj)"
  shows "obj \<in> set (books s)" and "bid obj = pk" and "buser obj = u"
proof -
  from assms obtain result where r: "get_queryset u q s = Inr result"
    and f: "filter (\<lambda>b. bid b = pk) result = [obj]"
    unfolding get_object_def by (auto split: sum.splits list.splits)
  have "obj \<in> set (filter (\<lambda>b. bid b = pk) result)" by (simp add: f)
  then have o: "obj \<in> set result" "bid obj = pk" by auto
  with get_queryset_owned[OF r] show "obj \<in> set (books s)" "bid obj = pk" "buser obj = u"
    by auto
qed

lemma update_books:
  assumes "update u instance vd s = Inr (obj, s')"
  shows "books s' = books (save (setattrs (snd (pop ''authors'' (snd (pop ''tags'' vd)))) instance) s)"
proof -
  from assms obtain tags_opt authors_opt s1 s2 where
    st: "(case tags_opt of None \<Rightarrow> Inr s
              | Some ts \<Rightarrow> get_or_create_tags u ts instance
                            (s\<lparr>book_tags := m2m_clear (bid instance) (book_tags s)\<rparr>)) = Inr s1"
    and sa: "(case authors_opt of None \<Rightarrow> Inr s1
              | Some as \<Rightarrow> get_or_create_authors u as instance
                            (s1\<lparr>book_authors := m2m_clear (bid instance) (book_authors s1)\<rparr>)) = Inr s2"
    and o: "obj = setattrs (snd (pop ''authors'' (snd (pop ''tags'' vd)))) instance"
    and s': "s' = save obj s2"
    by (rule update_steps)
  have 1: "books s1 = books s" using st tags_frame by (cases tags_opt) auto
  have 2: "books s2 = books s1" using sa authors_frame by (cases authors_opt) auto
  show ?thesis unfolding s' o by (simp add: save_def 1 2)
qed

section \<open>When the serializer calls return\<close>

lemma filter_key_le1:
  "distinct (map g xs) \<Longrightarrow> length (filter (\<lambda>x. g x = k) xs) \<le> 1"
proof (induction xs)
  case Nil
  show ?case by simp
next
  case (Cons x xs)
  show ?case
  proof (cases "g x = k")
    case True
    from Cons.prems have "g x \<notin> set (map g xs)" by simp
    with True have "\<forall>y\<in>set xs. g y \<noteq> k" by (metis imageI set_map)
    then have "filter (\<lambda>y. g y = k) xs = []"
      by (simp add: filter_empty_conv)
    with True show ?thesis by simp
  next
    case False
    with Cons show ?thesis by simp
  qed
qed

lemma matching_as_key:
  "matching u (Some n) rows = filter (\<lambda>t. (nuser t, nname t) = (u, n)) rows"
  by (simp add: matching_def)

lemma get_or_create_returns:
  assumes "unique_names rows"
  shows "\<exists>obj created rows' nxt'.
           get_or_create u (Some n) rows nxt = Inr (obj, created, rows', nxt')
           \<and> unique_names rows'"
proof -
  have le: "length (matching u (Some n) rows) \<le> 1"
    unfolding matching_as_key using assms unfolding unique_names_def by (rule filter_key_le1)
  show ?thesis
  proof (cases "matching u (Some n) rows")
    case Nil
    then have "(u, n) \<notin> set (map (\<lambda>t. (nuser t, nname t)) rows)"
      by (auto simp: matching_def filter_empty_conv)
    then have "unique_names (rows @ [\<lparr>nid = nxt, nuser = u, nname = n\<rparr>])"
      using assms by (simp add: unique_names_def)
    with Nil show ?thesis by (auto simp: get_or_create_def Let_def)
  next
    case (Cons x xs)
    with le have "xs = []" by simp
    with Cons assms show ?thesis by (auto simp: get_or_create_def)
  qed
qed

lemma reconcile_returns:
  assumes "unique_names rows"
  shows "\<exists>r. reconcile u (map Some names) b rows nxt m = Inr r"
  using assms
proof (induction names arbitrary: rows nxt m)
  case Nil
  show ?case by simp
next
  case (Cons n ns)
  from get_or_create_returns[OF Cons.prems, of u n nxt] obtain obj created rows' nxt' where
    g: "get_or_create u (Some n) rows nxt = Inr (obj, created, rows', nxt')"
    and un: "unique_names rows'" by blast
  from Cons.IH[OF un] obtain r where
    "reconcile u (map Some ns) b rows' nxt' (m2m_add b (nid obj) m) = Inr r" by blast
  with g have "reconcile u (map Some (n # ns)) b rows nxt m = Inr r" by simp
  then show ?case by (rule exI)
qed

lemma get_or_create_tags_returns:
  assumes "unique_names (tags s)"
  shows "\<exists>s'. get_or_create_tags u (map Some names) book s = Inr s'"
proof -
  from reconcile_returns[OF assms] obtain r where
    "reconcile u (map Some names) (bid book) (tags s) (next_tag_id s) (book_tags s) = Inr r"
    by blast
  then show ?thesis
    unfolding get_or_create_tags_reconcile by (cases r) auto
qed

lemma get_or_create_authors_returns:
  assumes "unique_names (authors s)"
  shows "\<exists>s'. get_or_create_authors u (map Some names) book s = Inr s'"
proof -
  from reconcile_returns[OF assms] obtain r where
    "reconcile u (map Some names) (bid book) (authors s) (next_author_id s) (book_authors s) = Inr r"
    by blast
  then show ?thesis
    unfolding get_or_create_authors_reconcile by (cases r) auto
qed

text \<open>What a successful validation says about each declared field.\<close>

lemma no_errors_field:
  assumes "fst (run_fields cls partial d fs) = []" and "f \<in> set fs"
    and "f \<notin> set read_only_fields"
  shows "case map_of d f of
           None \<Rightarrow> partial \<or> \<not> required cls f
         | Some v \<Rightarrow> \<exists>a. validate_field partial f v = Inr a"
  using assms
proof (induction fs)
  case Nil
  then show ?case by simp
next
  case (Cons g fs)
  obtain errs ret where r: "run_fields cls partial d fs = (errs, ret)"
    by (cases "run_fields cls partial d fs")
  from Cons.prems(1) have e: "errs = []"
    unfolding run_fields_Cons(2)[OF r] by (auto split: if_splits option.splits sum.splits)
  show ?case
  proof (cases "f = g")
    case True
    from Cons.prems(1,3) show ?thesis
      unfolding run_fields_Cons(2)[OF r] True
      by (auto split: if_splits option.splits sum.splits)
  next
    case False
    with Cons.prems(2) have "f \<in> set fs" by simp
    from Cons.IH[OF _ this Cons.prems(3)] show ?thesis by (simp add: r e)
  qed
qed

lemma validate_named_named:
  assumes "validate_named partial i = Inr x"
    and "partial \<longrightarrow> (case i of VObj d \<Rightarrow> map_of d ''name'' \<noteq> None | _ \<Rightarrow> True)"
  shows "\<exists>n. x = Some n"
  using assms unfolding validate_named_def
  by (auto split: val.splits option.splits sum.splits if_splits)

lemma validate_nested_named:
  assumes "validate_nested partial v = Inr ds" and "partial \<longrightarrow> named_descriptors (Some v)"
  shows "\<exists>names. ds = map Some names"
proof -
  from assms(1) obtain items where v: "v = VList items"
    unfolding validate_nested_def by (auto split: val.splits)
  let ?rs = "map (validate_named partial) items"
  from assms(1) have ok: "\<not> list_ex isl ?rs"
    and ds: "ds = map (\<lambda>r. case r of Inl _ \<Rightarrow> None | Inr d \<Rightarrow> d) ?rs"
    unfolding validate_nested_def v by (auto simp: Let_def split: if_splits)
  have "\<forall>d\<in>set ds. \<exists>n. d = Some n"
  proof
    fix d assume "d \<in> set ds"
    then obtain i where i: "i \<in> set items"
      and d: "d = (case validate_named partial i of Inl _ \<Rightarrow> None | Inr x \<Rightarrow> x)"
      unfolding ds by auto
    from ok i have "\<not> isl (validate_named partial i)" by (auto simp: list_ex_iff)
    then obtain x where x: "validate_named partial i = Inr x"
      by (cases "validate_named partial i") auto
    from assms(2) i
    have "partial \<longrightarrow> (case i of VObj d \<Rightarrow> map_of d ''name'' \<noteq> None | _ \<Rightarrow> True)"
      unfolding named_descriptors_def v by (simp add: list_all_iff del: not_None_eq)
    from validate_named_named[OF x this] show "\<exists>n. d = Some n" by (simp add: d x)
  qed
  then have "ds = map Some (map the ds)"
    by (induction ds) auto
  then show ?thesis by blast
qed

lemma validated_descriptors:
  assumes "run_validation cls partial d = Inr vd"
    and "partial \<longrightarrow> named_descriptors (map_of d key)"
    and "key = ''tags'' \<or> key = ''authors''"
  shows "map_of vd key = None \<or> (\<exists>names. map_of vd key = Some (ANested (map Some names)))"
proof (cases "map_of vd key")
  case None
  then show ?thesis by simp
next
  case (Some a)
  from Some[unfolded run_validation_Inr(1)[OF assms(1)] map_of_run_fields]
  obtain v where v: "map_of d key = Some v" and a: "validate_field partial key v = Inr a"
    by (auto split: if_splits option.splits sum.splits)
  from a assms(3) obtain ds where ds: "validate_nested partial v = Inr ds" and a': "a = ANested ds"
    unfolding validate_field_def by (cases "validate_nested partial v") auto
  from validate_nested_named[OF ds] assms(2) v obtain names where "ds = map Some names"
    by auto
  with Some a' show ?thesis by simp
qed

lemma validated_price:
  assumes "run_validation cls False d = Inr vd" and "''price'' \<in> set (meta_fields cls)"
  shows "\<exists>p. map_of vd ''price'' = Some (ADec p)"
proof -
  have ro: "''price'' \<notin> set read_only_fields" by (simp add: read_only_fields_def)
  have rq: "required cls ''price''" by (simp add: required_def)
  from no_errors_field[OF run_validation_Inr(2)[OF assms(1)] assms(2) ro] rq
  obtain v a where v: "map_of d ''price'' = Some v"
    and a: "validate_field False ''price'' v = Inr a"
    by (auto split: option.splits)
  from a obtain p where "a = ADec p"
    unfolding validate_field_def by (cases "validate_price v") auto
  with v a assms(2) ro show ?thesis
    unfolding run_validation_Inr(1)[OF assms(1)] map_of_run_fields by simp
qed

lemma descriptors_of_validated:
  assumes "m = None \<or> (\<exists>names. m = Some (ANested (map Some names)))"
  obtains names where "descriptors m = Inr None" "m = None"
  | names where "descriptors m = Inr (Some (map Some names))" "m = Some (ANested (map Some names))"
  using assms by (auto simp: descriptors_def)

lemma update_returns:
  assumes "run_validation cls partial d = Inr vd"
    and "partial \<longrightarrow> named_descriptors (map_of d ''tags'')"
    and "partial \<longrightarrow> named_descriptors (map_of d ''authors'')"
    and "unique_names (tags s)" and "unique_names (authors s)"
  shows "\<exists>obj s'. update u inst vd s = Inr (obj, s')"
proof -
  have m: "map_of (snd (pop ''tags'' vd)) ''authors'' = map_of vd ''authors''"
    by (rule map_of_pop_other) simp
  let ?s0 = "s\<lparr>book_tags := m2m_clear (bid inst) (book_tags s)\<rparr>"
  have T: "\<exists>topt s1. descriptors (map_of vd ''tags'') = Inr topt
             \<and> (case topt of None \<Rightarrow> Inr s
                 | Some ts \<Rightarrow> get_or_create_tags u ts inst ?s0) = Inr s1
             \<and> authors s1 = authors s"
  proof (rule descriptors_of_validated[OF validated_descriptors[OF assms(1,2)]])
    show "''tags'' = ''tags'' \<or> ''tags'' = ''authors''" by simp
  next
    assume "descriptors (map_of vd ''tags'') = Inr None"
    then show ?thesis by simp
  next
    fix names assume d: "descriptors (map_of vd ''tags'') = Inr (Some (map Some names))"
    have "unique_names (tags ?s0)" using assms(4) by simp
    from get_or_create_tags_returns[OF this] obtain s1 where
      g: "get_or_create_tags u (map Some names) inst ?s0 = Inr s1" by blast
    from tags_frame[OF g] have "authors s1 = authors s" by simp
    with d g show ?thesis by simp
  qed
  then obtain topt s1 where t1: "descriptors (map_of vd ''tags'') = Inr topt"
    and t2: "(case topt of None \<Rightarrow> Inr s
                 | Some ts \<Rightarrow> get_or_create_tags u ts inst ?s0) = Inr s1"
    and t3: "authors s1 = authors s" by blast
  let ?s1 = "s1\<lparr>book_authors := m2m_clear (bid inst) (book_authors s1)\<rparr>"
  have A: "\<exists>aopt s2. descriptors (map_of vd ''authors'') = Inr aopt
             \<and> (case aopt of None \<Rightarrow> Inr s1
                 | Some as \<Rightarrow> get_or_create_authors u as inst ?s1) = Inr s2"
  proof (rule descriptors_of_validated[OF validated_descriptors[OF assms(1,3)]])
    show "''authors'' = ''tags'' \<or> ''authors'' = ''authors''" by simp
  next
    assume "descriptors (map_of vd ''authors'') = Inr None"
    then show ?thesis by simp
  next
    fix names assume d: "descriptors (map_of vd ''authors'') = Inr (Some (map Some names))"
    have "unique_names (authors ?s1)" using assms(5) t3 by simp
    from get_or_create_authors_returns[OF this] obtain s2 where
      g: "get_or_create_authors u (map Some names) inst ?s1 = Inr s2" by blast
    with d show ?thesis by simp
  qed
  then obtain aopt s2 where a1: "descriptors (map_of vd ''authors'') = Inr aopt"
    and a2: "(case aopt of None \<Rightarrow> Inr s1
                 | Some as \<Rightarrow> get_or_create_authors u as inst ?s1) = Inr s2" by blast
  show ?thesis
    unfolding update_def fst_pop m by (simp add: t1 t2 a1 a2 Let_def)
qed

lemma price_is_a_field: "''price'' \<in> set (meta_fields BookDetailSerializer)"
  by (simp add: meta_fields_def book_serializer_fields_def)

lemma perform_create_returns:
  assumes "run_validation BookDetailSerializer False d = Inr vd"
    and "unique_names (tags s)" and "unique_names (authors s)"
  shows "\<exists>obj s'. perform_create u vd s = Inr (obj, s')"
proof -
  let ?vd = "filter (\<lambda>kv. fst kv \<noteq> ''user'') vd @ [(''user'', AUser u)]"
  have nu: "''user'' \<notin> fst ` set vd" by (rule validated_no_user[OF assms(1)])
  then have "\<forall>kv\<in>set vd. fst kv \<noteq> ''user''" by (metis imageI)
  then have f: "filter (\<lambda>kv. fst kv \<noteq> ''user'') vd = vd"
    by (simp add: filter_id_conv)
  have none: "map_of vd ''user'' = None" using nu by (simp add: map_of_eq_None_iff)
  have other: "map_of ?vd k = map_of vd k" if "k \<noteq> ''user''" for k
    unfolding f using that by (simp add: map_add_def split: option.splits)
  have usr: "map_of ?vd ''user'' = Some (AUser u)"
    unfolding f by (simp add: map_add_def none)
  have m: "map_of (snd (pop ''tags'' ?vd)) ''authors'' = map_of vd ''authors''"
    using map_of_pop_other[of "''authors''" "''tags''" ?vd] other[of "''authors''"] by simp
  let ?kw = "snd (pop ''authors'' (snd (pop ''tags'' ?vd)))"
  have kw: "map_of ?kw k = map_of ?vd k" if "k \<noteq> ''tags''" "k \<noteq> ''authors''" for k
    using that by (simp add: map_of_pop_other)
  from validated_price[OF assms(1) price_is_a_field] obtain p where
    p: "map_of vd ''price'' = Some (ADec p)" by blast
  have "map_of ?kw ''user'' = Some (AUser u)" using kw[of "''user''"] usr by simp
  moreover have "map_of ?kw ''price'' = Some (ADec p)"
    using kw[of "''price''"] other[of "''price''"] p by simp
  ultimately obtain b s1 where bc: "book_objects_create ?kw s = Inr (b, s1)"
    by (simp add: book_objects_create_def Let_def)
  note fr = book_objects_create_frame[OF bc]
  have np: "False \<longrightarrow> named_descriptors x" for x by simp
  have T: "\<exists>topt s2. descriptors (map_of vd ''tags'') = Inr topt
             \<and> get_or_create_tags u (case topt of None \<Rightarrow> [] | Some ts \<Rightarrow> ts) b s1 = Inr s2
             \<and> authors s2 = authors s"
  proof (rule descriptors_of_validated[OF validated_descriptors[OF assms(1) np]])
    show "''tags'' = ''tags'' \<or> ''tags'' = ''authors''" by simp
  next
    assume "descriptors (map_of vd ''tags'') = Inr None"
    then show ?thesis using fr by simp
  next
    fix names assume d: "descriptors (map_of vd ''tags'') = Inr (Some (map Some names))"
    have "unique_names (tags s1)" using assms(2) fr by simp
    from get_or_create_tags_returns[OF this] obtain s2 where
      g: "get_or_create_tags u (map Some names) b s1 = Inr s2" by blast
    from tags_frame[OF g] fr have "authors s2 = authors s" by simp
    with d g show ?thesis by simp
  qed
  then obtain topt s2 where t1: "descriptors (map_of vd ''tags'') = Inr topt"
    and t2: "get_or_create_tags u (case topt of None \<Rightarrow> [] | Some ts \<Rightarrow> ts) b s1 = Inr s2"
    and t3: "authors s2 = authors s" by blast
  have A: "\<exists>aopt s3. descriptors (map_of vd ''authors'') = Inr aopt
             \<and> get_or_create_authors u (case aopt of None \<Rightarrow> [] | Some as \<Rightarrow> as) b s2 = Inr s3"
  proof (rule descriptors_of_validated[OF validated_descriptors[OF assms(1) np]])
    show "''authors'' = ''tags'' \<or> ''authors'' = ''authors''" by simp
  next
    assume "descriptors (map_of vd ''authors'') = Inr None"
    then show ?thesis by simp
  next
    fix names assume d: "descriptors (map_of vd ''authors'') = Inr (Some (map Some names))"
    have "unique_names (authors s2)" using assms(3) t3 by simp
    from get_or_create_authors_returns[OF this] obtain s3 where
      g: "get_or_create_authors u (map Some names) b s2 = Inr s3" by blast
    with d show ?thesis by simp
  qed
  then obtain aopt s3 where a1: "descriptors (map_of vd ''authors'') = Inr aopt"
    and a2: "get_or_create_authors u (case aopt of None \<Rightarrow> [] | Some as \<Rightarrow> as) b s2 = Inr s3"
    by blast
  have tg: "map_of ?vd ''tags'' = map_of vd ''tags''" using other[of "''tags''"] by simp
  show ?thesis
    unfolding perform_create_def create_def fst_pop m tg
    by (simp add: t1 a1 bc t2 a2)
qed

lemma get_queryset_distinct:
  assumes "get_queryset u q s = Inr result"
  shows "distinct result"
proof -
  from assms obtain queryset where
    "result = distinct_rows (order_by_desc bid (filter (\<lambda>b. buser b = u) queryset))"
    by (rule get_queryset_steps)
  then show ?thesis by simp
qed

lemma at_most_one:
  assumes "length xs \<le> 1"
  obtains "xs = []" | x where "xs = [x]"
  using assms by (cases xs) auto

lemma get_object_returns:
  assumes "ids_param_ok (map_of q ''tags'')" and "ids_param_ok (map_of q ''authors'')"
    and "distinct (map bid (books s))"
  shows "\<exists>r. get_object u q pk s = Inr r"
proof -
  from get_queryset_returns[OF assms(1,2)] obtain result where
    r: "get_queryset u q s = Inr result" by blast
  have "inj_on bid (set (books s))" using assms(3) by (simp add: distinct_map)
  then have "inj_on bid (set result)"
    using get_queryset_owned[OF r] by (auto intro: inj_on_subset)
  with get_queryset_distinct[OF r] have "distinct (map bid result)" by (simp add: distinct_map)
  then have "length (filter (\<lambda>b. bid b = pk) result) \<le> 1" by (rule filter_key_le1)
  then show ?thesis
    by (rule at_most_one) (simp_all add: get_object_def r)
qed

lemma attr_get_object_returns:
  assumes "flag_param_ok (map_of q ''assigned_only'')"
    and "distinct (map nid (rows_of k s))"
  shows "\<exists>r. attr_get_object k u q pk s = Inr r"
proof -
  from attr_get_queryset_returns[OF assms(1)] obtain result where
    r: "attr_get_queryset k u q s = Inr result" by blast
  have "inj_on nid (set (rows_of k s))" using assms(2) by (simp add: distinct_map)
  then have "inj_on nid (set result)"
    using attr_get_queryset_owned(1)[OF r] by (auto intro: inj_on_subset)
  with attr_get_queryset_owned(2)[OF r] have "distinct (map nid result)"
    by (simp add: distinct_map)
  then have "length (filter (\<lambda>t. nid t = pk) result) \<le> 1" by (rule filter_key_le1)
  then show ?thesis
    by (rule at_most_one) (simp_all add: attr_get_object_def r)
qed

section \<open>Invalid payloads fail validation\<close>

lemma run_fields_error_keys:
  "fst ` set (fst (run_fields cls partial d fs)) \<subseteq> set fs"
proof (induction fs)
  case Nil
  show ?case by simp
next
  case (Cons f fs)
  obtain errs ret where r: "run_fields cls partial d fs = (errs, ret)"
    by (cases "run_fields cls partial d fs")
  have ih: "fst ` set errs \<subseteq> set fs" using Cons.IH by (simp add: r)
  show ?case
    unfolding run_fields_Cons(2)[OF r] using ih
    by (auto split: option.splits sum.splits)
qed

lemma run_validation_errors:
  assumes "run_validation cls partial d = Inl errs"
  shows "errs \<noteq> []" and "fst ` set errs \<subseteq> set (meta_fields cls)"
proof -
  from assms have e: "errs = fst (run_fields cls partial d (meta_fields cls))" and "errs \<noteq> []"
    unfolding run_validation_def by (auto split: prod.splits list.splits)
  then show "errs \<noteq> []" by simp
  show "fst ` set errs \<subseteq> set (meta_fields cls)"
    unfolding e by (rule run_fields_error_keys)
qed

lemma validate_nested_full_named:
  assumes "validate_nested False v = Inr ds"
  shows "named_descriptors (Some v)"
proof -
  from assms obtain items where v: "v = VList items"
    unfolding validate_nested_def by (auto split: val.splits)
  from assms have ok: "\<not> list_ex isl (map (validate_named False) items)"
    unfolding validate_nested_def v by (auto simp: Let_def split: if_splits)
  have "case i of VObj d \<Rightarrow> map_of d ''name'' \<noteq> None | _ \<Rightarrow> True" if "i \<in> set items" for i
  proof -
    from ok that have "\<not> isl (validate_named False i)" by (auto simp: list_ex_iff)
    then show ?thesis
      unfolding validate_named_def by (auto split: val.splits option.splits)
  qed
  then show ?thesis
    unfolding named_descriptors_def v by (simp add: list_all_iff del: not_None_eq)
qed

lemma valid_full_named:
  assumes "run_validation cls False d = Inr vd" and "key = ''tags'' \<or> key = ''authors''"
    and "key \<in> set (meta_fields cls)"
  shows "named_descriptors (map_of d key)"
proof (cases "map_of d key")
  case None
  then show ?thesis by (simp add: named_descriptors_def)
next
  case (Some v)
  have ro: "key \<notin> set read_only_fields" using assms(2) by (auto simp: read_only_fields_def)
  from no_errors_field[OF run_validation_Inr(2)[OF assms(1)] assms(3) ro] Some
  obtain a where "validate_field False key v = Inr a" by auto
  then obtain ds where "validate_nested False v = Inr ds"
    using assms(2) unfolding validate_field_def by (cases "validate_nested False v") auto
  from validate_nested_full_named[OF this] Some show ?thesis by simp
qed

lemma detail_fields:
  "''title'' \<in> set (meta_fields BookDetailSerializer)"
  "''price'' \<in> set (meta_fields BookDetailSerializer)"
  "''tags'' \<in> set (meta_fields BookDetailSerializer)"
  "''authors'' \<in> set (meta_fields BookDetailSerializer)"
  "''image'' \<in> set (meta_fields BookImageSerializer)"
  by (simp_all add: meta_fields_def book_serializer_fields_def)

lemma invalid_payload_rejected:
  assumes "invalid_payload partial d"
  shows "\<exists>errs. run_validation BookDetailSerializer partial d = Inl errs"
proof (rule ccontr)
  assume "\<not> ?thesis"
  then obtain vd where v: "run_validation BookDetailSerializer partial d = Inr vd"
    by (cases "run_validation BookDetailSerializer partial d") auto
  note ne = run_validation_Inr(2)[OF v]
  have ro: "''title'' \<notin> set read_only_fields" "''price'' \<notin> set read_only_fields"
    by (simp_all add: read_only_fields_def)
  have t: "case map_of d ''title'' of None \<Rightarrow> partial \<or> \<not> required BookDetailSerializer ''title''
           | Some v \<Rightarrow> \<exists>a. validate_field partial ''title'' v = Inr a"
    by (rule no_errors_field[OF ne detail_fields(1) ro(1)])
  have p: "case map_of d ''price'' of None \<Rightarrow> partial \<or> \<not> required BookDetailSerializer ''price''
           | Some v \<Rightarrow> \<exists>a. validate_field partial ''price'' v = Inr a"
    by (rule no_errors_field[OF ne detail_fields(2) ro(2)])
  have 1: "\<not> (\<not> partial \<and> (map_of d ''title'' = None \<or> map_of d ''price'' = None))"
    using t p by (auto simp: required_def split: option.splits)
  have 2: "\<not> (case map_of d ''price'' of Some (VNum n) \<Rightarrow> n < 0 | _ \<Rightarrow> False)"
    using p by (auto simp: validate_field_def validate_price_def split: option.splits val.splits)
  have 3: "\<not> (\<not> partial \<and> (\<not> named_descriptors (map_of d ''tags'')
                       \<or> \<not> named_descriptors (map_of d ''authors'')))"
  proof
    assume a: "\<not> partial \<and> (\<not> named_descriptors (map_of d ''tags'')
                       \<or> \<not> named_descriptors (map_of d ''authors''))"
    then have v': "run_validation BookDetailSerializer False d = Inr vd" using v by simp
    from valid_full_named[OF v' _ detail_fields(3)] valid_full_named[OF v' _ detail_fields(4)] a
    show False by simp
  qed
  from assms 1 2 3 show False unfolding invalid_payload_def by blast
qed

lemma invalid_upload_rejected:
  assumes "invalid_upload d"
  shows "\<exists>errs. run_validation BookImageSerializer False d = Inl errs"
proof (rule ccontr)
  assume "\<not> ?thesis"
  then obtain vd where v: "run_validation BookImageSerializer False d = Inr vd"
    by (cases "run_validation BookImageSerializer False d") auto
  have ro: "''image'' \<notin> set read_only_fields" by (simp add: read_only_fields_def)
  from no_errors_field[OF run_validation_Inr(2)[OF v] detail_fields(5) ro] assms
  show False
    by (auto simp: invalid_upload_def validate_field_def validate_image_def
             split: option.splits val.splits if_splits)
qed

section \<open>Primary keys are an invariant of the endpoints\<close>

lemma keys_ok_append:
  "keys_ok key rows nxt \<Longrightarrow> key r = nxt \<Longrightarrow> keys_ok key (rows @ [r]) (Suc nxt)"
  unfolding keys_ok_def by (auto simp: less_Suc_eq)

lemma keys_ok_replace:
  assumes "keys_ok key rows nxt" and "key r = k"
  shows "keys_ok key (map (\<lambda>x. if key x = k then r else x) rows) nxt"
proof -
  have m: "map key (map (\<lambda>x. if key x = k then r else x) rows) = map key rows"
    using assms(2) by (auto simp: map_eq_conv)
  have d: "distinct (map key (map (\<lambda>x. if key x = k then r else x) rows))"
    unfolding m using assms(1) by (simp add: keys_ok_def)
  have "\<forall>x\<in>set (map (\<lambda>x. if key x = k then r else x) rows). key x < nxt"
  proof
    fix x assume "x \<in> set (map (\<lambda>x. if key x = k then r else x) rows)"
    then obtain y where y: "y \<in> set rows" and x: "x = (if key y = k then r else y)" by auto
    have "key x = key y" using x assms(2) by simp
    with y assms(1) show "key x < nxt" by (simp add: keys_ok_def)
  qed
  with d show ?thesis unfolding keys_ok_def by (rule_tac conjI)
qed

lemma keys_ok_filter:
  "keys_ok key rows nxt \<Longrightarrow> keys_ok key (filter P rows) nxt"
  unfolding keys_ok_def by (auto simp: distinct_map_filter)

lemma get_or_create_keys:
  assumes "get_or_create u d rows nxt = Inr (obj, created, rows', nxt')"
    and "keys_ok nid rows nxt"
  shows "keys_ok nid rows' nxt'"
proof (cases "matching u d rows")
  case Nil
  with assms(1) have "rows' = rows @ [obj]" "nid obj = nxt" "nxt' = Suc nxt"
    by (auto simp: get_or_create_def Let_def)
  with keys_ok_append[OF assms(2), of obj] show ?thesis by simp
next
  case (Cons x xs)
  with assms(1) have "rows' = rows" "nxt' = nxt"
    by (auto simp: get_or_create_def split: list.splits)
  with assms(2) show ?thesis by simp
qed

lemma reconcile_keys:
  assumes "reconcile u ds b rows nxt m = Inr (rows', nxt', m')" and "keys_ok nid rows nxt"
  shows "keys_ok nid rows' nxt'"
  using assms
proof (induction ds arbitrary: rows nxt m)
  case Nil
  then show ?case by simp
next
  case (Cons d ds)
  from Cons.prems(1) obtain obj created rows1 nxt1 where
    g: "get_or_create u d rows nxt = Inr (obj, created, rows1, nxt1)"
    and r: "reconcile u ds b rows1 nxt1 (m2m_add b (nid obj) m) = Inr (rows', nxt', m')"
    by (auto split: sum.splits)
  from Cons.IH[OF r get_or_create_keys[OF g Cons.prems(2)]] show ?case .
qed

lemma get_or_create_tags_ok:
  assumes "get_or_create_tags u ds book s = Inr s'" and "store_ok s"
  shows "store_ok s'"
proof -
  from assms(1) obtain rows nxt m where
    r: "reconcile u ds (bid book) (tags s) (next_tag_id s) (book_tags s) = Inr (rows, nxt, m)"
    and s': "s' = s\<lparr>tags := rows, next_tag_id := nxt, book_tags := m\<rparr>"
    unfolding get_or_create_tags_reconcile by (auto split: sum.splits)
  from reconcile_keys[OF r] assms(2) show ?thesis by (simp add: store_ok_def s')
qed

lemma get_or_create_authors_ok:
  assumes "get_or_create_authors u ds book s = Inr s'" and "store_ok s"
  shows "store_ok s'"
proof -
  from assms(1) obtain rows nxt m where
    r: "reconcile u ds (bid book) (authors s) (next_author_id s) (book_authors s)
          = Inr (rows, nxt, m)"
    and s': "s' = s\<lparr>authors := rows, next_author_id := nxt, book_authors := m\<rparr>"
    unfolding get_or_create_authors_reconcile by (auto split: sum.splits)
  from reconcile_keys[OF r] assms(2) show ?thesis by (simp add: store_ok_def s')
qed

lemma save_ok:
  assumes "store_ok s" and "bid b \<in> set (map bid (books s))"
  shows "store_ok (save b s)"
  using assms keys_ok_replace[of bid "books s" "next_book_id s" b "bid b"]
  by (simp add: store_ok_def save_def)

lemma create_ok:
  assumes "create u vd s = Inr (obj, s')" and "store_ok s"
  shows "store_ok s'"
proof -
  from assms(1) obtain tags_opt authors_opt s1 s2 where
    bc: "book_objects_create (snd (pop ''authors'' (snd (pop ''tags'' vd)))) s = Inr (obj, s1)"
    and st: "get_or_create_tags u (case tags_opt of None \<Rightarrow> [] | Some ts \<Rightarrow> ts) obj s1 = Inr s2"
    and sa: "get_or_create_authors u (case authors_opt of None \<Rightarrow> [] | Some as \<Rightarrow> as) obj s2 = Inr s'"
    by (rule create_steps)
  from bc obtain b where s1: "s1 = s\<lparr>books := books s @ [b], next_book_id := Suc (next_book_id s)\<rparr>"
    and b: "bid b = next_book_id s"
    unfolding book_objects_create_def
    by (auto simp: Let_def split: option.splits attr.splits)
  have "store_ok s1"
    using assms(2) keys_ok_append[of bid "books s" "next_book_id s" b] b
    by (simp add: store_ok_def s1)
  from get_or_create_authors_ok[OF sa get_or_create_tags_ok[OF st this]] show ?thesis .
qed

lemma update_ok:
  assumes "update u inst vd s = Inr (obj, s')" and "store_ok s" and "inst \<in> set (books s)"
  shows "store_ok s'"
proof -
  from assms(1) obtain tags_opt authors_opt s1 s2 where
    st: "(case tags_opt of None \<Rightarrow> Inr s
              | Some ts \<Rightarrow> get_or_create_tags u ts inst
                            (s\<lparr>book_tags := m2m_clear (bid inst) (book_tags s)\<rparr>)) = Inr s1"
    and sa: "(case authors_opt of None \<Rightarrow> Inr s1
              | Some as \<Rightarrow> get_or_create_authors u as inst
                            (s1\<lparr>book_authors := m2m_clear (bid inst) (book_authors s1)\<rparr>)) = Inr s2"
    and o: "obj = setattrs (snd (pop ''authors'' (snd (pop ''tags'' vd)))) inst"
    and s': "s' = save obj s2"
    by (rule update_steps)
  have c: "store_ok (s\<lparr>book_tags := x\<rparr>)" for x using assms(2) by (simp add: store_ok_def)
  have 1: "store_ok s1 \<and> books s1 = books s"
  proof (cases tags_opt)
    case None
    with st assms(2) show ?thesis by simp
  next
    case (Some ts)
    with st have g: "get_or_create_tags u ts inst
                       (s\<lparr>book_tags := m2m_clear (bid inst) (book_tags s)\<rparr>) = Inr s1" by simp
    from get_or_create_tags_ok[OF g c] tags_frame[OF g] show ?thesis by simp
  qed
  have c1: "store_ok (s1\<lparr>book_authors := x\<rparr>)" for x
    using conjunct1[OF 1] by (simp add: store_ok_def)
  have 2: "store_ok s2 \<and> books s2 = books s"
  proof (cases authors_opt)
    case None
    with sa 1 show ?thesis by simp
  next
    case (Some as)
    with sa have g: "get_or_create_authors u as inst
                       (s1\<lparr>book_authors := m2m_clear (bid inst) (book_authors s1)\<rparr>) = Inr s2"
      by simp
    from get_or_create_authors_ok[OF g c1] authors_frame[OF g] 1 show ?thesis by simp
  qed
  have "bid obj \<in> set (map bid (books s2))" using assms(3) 2 by (simp add: o)
  with 2 show ?thesis unfolding s' by (simp add: save_ok)
qed

lemma book_endpoints_keep_keys:
  assumes "store_ok s"
  shows "store_ok (snd (book_list req s)) \<and> store_ok (snd (book_retrieve req pk s))
       \<and> store_ok (snd (book_create req s)) \<and> store_ok (snd (book_update partial req pk s))
       \<and> store_ok (snd (book_destroy req pk s)) \<and> store_ok (snd (upload_image req pk s))"
proof (cases "req_user req")
  case None
  with assms show ?thesis
    by (simp add: book_list_def book_retrieve_def book_create_def book_update_def
          book_destroy_def upload_image_def)
next
  case (Some u)
  note u = this
  let ?q = "req_query_params req"
  have 1: "store_ok (snd (book_list req s))"
    using assms by (simp add: book_list_def u split: sum.splits)
  have 2: "store_ok (snd (book_retrieve req pk s))"
    using assms by (simp add: book_retrieve_def u split: sum.splits option.splits)
  have 3: "store_ok (snd (book_create req s))"
  proof (cases "run_validation (get_serializer_class Create) False (req_data req)")
    case (Inl errs)
    with assms show ?thesis by (simp add: book_create_def u)
  next
    case (Inr vd)
    show ?thesis
    proof (cases "perform_create u vd s")
      case (Inl e)
      with Inr assms show ?thesis by (simp add: book_create_def u)
    next
      case (Inr r)
      obtain obj s' where r: "r = (obj, s')" by (cases r)
      from Inr r have "store_ok s'"
        unfolding perform_create_def using create_ok[OF _ assms] by simp
      with Inr r \<open>run_validation (get_serializer_class Create) False (req_data req) = Inr vd\<close>
      show ?thesis by (simp add: book_create_def u)
    qed
  qed
  have D: "store_ok (snd (book_update partial req pk s))
         \<and> store_ok (snd (book_destroy req pk s)) \<and> store_ok (snd (upload_image req pk s))"
  proof (cases "get_object u ?q pk s")
    case (Inl e)
    with assms show ?thesis
      by (simp add: book_update_def book_destroy_def upload_image_def u)
  next
    case (Inr found)
    note g = this
    show ?thesis
    proof (cases found)
      case None
      with g assms show ?thesis
        by (simp add: book_update_def book_destroy_def upload_image_def u)
    next
      case (Some inst)
      have i: "inst \<in> set (books s)"
        using get_object_Some(1)[of u ?q pk s inst] g Some by simp
      have a: "store_ok (snd (book_update partial req pk s))"
      proof (cases "run_validation (get_serializer_class (if partial then PartialUpdate else Update))
                      partial (req_data req)")
        case (Inl errs)
        with g Some assms show ?thesis by (simp add: book_update_def u)
      next
        case (Inr vd)
        note v = this
        show ?thesis
        proof (cases "update u inst vd s")
          case (Inl e)
          with v g Some assms show ?thesis by (simp add: book_update_def u)
        next
          case (Inr r)
          obtain obj s' where r: "r = (obj, s')" by (cases r)
          from Inr r have "store_ok s'" using update_ok[OF _ assms i] by simp
          with Inr r v g Some show ?thesis by (simp add: book_update_def u)
        qed
      qed
      have b: "store_ok (snd (book_destroy req pk s))"
        using assms keys_ok_filter[of bid "books s" "next_book_id s"] g Some
        by (simp add: book_destroy_def u delete_book_def store_ok_def)
      have "bid (setattrs vd inst) \<in> set (map bid (books s))" for vd using i by simp
      then have c: "store_ok (snd (upload_image req pk s))"
        using assms g Some
        by (simp add: upload_image_def u model_update_def Let_def save_ok split: sum.splits)
      from a b c show ?thesis by simp
    qed
  qed
  from 1 2 3 D show ?thesis by simp
qed

lemma attr_get_object_Some:
  assumes "attr_get_object k u q pk s = Inr (Some obj)"
  shows "obj \<in> set (rows_of k s)" and "nid obj = pk" and "nuser obj = u"
proof -
  from assms obtain result where r: "attr_get_queryset k u q s = Inr result"
    and f: "filter (\<lambda>t. nid t = pk) result = [obj]"
    unfolding attr_get_object_def by (auto split: sum.splits list.splits)
  have "obj \<in> set (filter (\<lambda>t. nid t = pk) result)" by (simp add: f)
  then have o: "obj \<in> set result" "nid obj = pk" by auto
  with attr_get_queryset_owned(1)[OF r]
  show "obj \<in> set (rows_of k s)" "nid obj = pk" "nuser obj = u" by auto
qed

lemma store_ok_rows:
  "store_ok s \<Longrightarrow> keys_ok nid rows (case k of Tag \<Rightarrow> next_tag_id s | Author \<Rightarrow> next_author_id s)
     \<Longrightarrow> store_ok (set_rows k rows s)"
  by (cases k) (simp_all add: store_ok_def)

lemma store_ok_rows_of:
  "store_ok s \<Longrightarrow> keys_ok nid (rows_of k s) (case k of Tag \<Rightarrow> next_tag_id s | Author \<Rightarrow> next_author_id s)"
  by (cases k) (simp_all add: store_ok_def)

lemma store_ok_links: "store_ok s \<Longrightarrow> store_ok (set_links k links s)"
  by (cases k) (simp_all add: store_ok_def)

lemma attr_endpoints_keep_keys:
  assumes "store_ok s"
  shows "store_ok (snd (attr_list k req s)) \<and> store_ok (snd (attr_update k partial req pk s))
       \<and> store_ok (snd (attr_destroy k req pk s))"
proof (cases "req_user req")
  case None
  with assms show ?thesis by (simp add: attr_list_def attr_update_def attr_destroy_def)
next
  case (Some u)
  note u = this
  let ?q = "req_query_params req"
  have 1: "store_ok (snd (attr_list k req s))"
    using assms by (simp add: attr_list_def u split: sum.splits)
  have D: "store_ok (snd (attr_update k partial req pk s))
         \<and> store_ok (snd (attr_destroy k req pk s))"
  proof (cases "attr_get_object k u ?q pk s")
    case (Inl e)
    with assms show ?thesis by (simp add: attr_update_def attr_destroy_def u)
  next
    case (Inr found)
    note g = this
    show ?thesis
    proof (cases found)
      case None
      with g assms show ?thesis by (simp add: attr_update_def attr_destroy_def u)
    next
      case (Some inst)
      have i: "inst \<in> set (rows_of k s)"
        using attr_get_object_Some(1)[of k u ?q pk s inst] g Some by simp
      have sv: "store_ok (save_named k t s)" if "nid t = nid inst" for t
      proof -
        have "nid t \<in> set (map nid (rows_of k s))" using i that by force
        then show ?thesis
          using store_ok_rows[OF assms keys_ok_replace[OF store_ok_rows_of[OF assms] refl]]
          by (simp add: save_named_def)
      qed
      have a: "store_ok (snd (attr_update k partial req pk s))"
      proof (cases "validate_named partial (VObj (req_data req))")
        case (Inl errs)
        with g Some assms show ?thesis by (simp add: attr_update_def u)
      next
        case (Inr name)
        with g Some show ?thesis
          by (cases name) (simp_all add: attr_update_def u Let_def sv)
      qed
      have b: "store_ok (snd (attr_destroy k req pk s))"
        using g Some
          store_ok_links[OF store_ok_rows[OF assms keys_ok_filter[OF store_ok_rows_of[OF assms]]]]
        by (simp add: attr_destroy_def u delete_named_def)
      from a b show ?thesis by simp
    qed
  qed
  from 1 D show ?thesis by simp
qed

section \<open>Update replaces the associations of a key that is present\<close>

text \<open>
  Claim C1. Whenever \<^verbatim>\<open>BookSerializer.update\<close> returns: if the validated data hold the key
  \<^verbatim>\<open>tags\<close> with a list of named descriptors, then (the predicate \<open>replaced\<close>) the tags
  that existed before are still in the table, the new rows belong to the user and carry
  submitted names, every submitted name has a tag of the user that is linked to the book,
  and the tag identifiers linked to the book are exactly those of the user's tags under a
  submitted name: the ones the user owned before together with the new rows, so that a tag
  linked before and not named is no longer linked. If the list is empty, no tag is linked
  to the book and the tag table is as before. If the key is absent, the link table and the
  tag table are as before. The same holds for \<^verbatim>\<open>authors\<close>. The links of every other
  book are as before.
\<close>

theorem update_replaces_associations:
  assumes "update u instance vd s = Inr (obj, s')"
  shows "(map_of vd ''tags'' = Some (ANested (map Some tag_names)) \<longrightarrow>
            replaced u tag_names (bid instance) (tags s) (tags s') (book_tags s'))
       \<and> (map_of vd ''tags'' = Some (ANested []) \<longrightarrow>
            linked (bid instance) (book_tags s') = {} \<and> tags s' = tags s)
       \<and> (map_of vd ''tags'' = None \<longrightarrow> book_tags s' = book_tags s \<and> tags s' = tags s)
       \<and> (map_of vd ''authors'' = Some (ANested (map Some author_names)) \<longrightarrow>
            replaced u author_names (bid instance) (authors s) (authors s') (book_authors s'))
       \<and> (map_of vd ''authors'' = Some (ANested []) \<longrightarrow>
            linked (bid instance) (book_authors s') = {} \<and> authors s' = authors s)
       \<and> (map_of vd ''authors'' = None \<longrightarrow>
            book_authors s' = book_authors s \<and> authors s' = authors s)
       \<and> (\<forall>b. b \<noteq> bid instance \<longrightarrow>
            linked b (book_tags s') = linked b (book_tags s)
            \<and> linked b (book_authors s') = linked b (book_authors s))"
proof -
  from assms obtain tags_opt authors_opt s1 s2 where
    dt: "descriptors (map_of vd ''tags'') = Inr tags_opt"
    and da: "descriptors (map_of vd ''authors'') = Inr authors_opt"
    and st: "(case tags_opt of None \<Rightarrow> Inr s
              | Some ts \<Rightarrow> get_or_create_tags u ts instance
                            (s\<lparr>book_tags := m2m_clear (bid instance) (book_tags s)\<rparr>)) = Inr s1"
    and sa: "(case authors_opt of None \<Rightarrow> Inr s1
              | Some as \<Rightarrow> get_or_create_authors u as instance
                            (s1\<lparr>book_authors := m2m_clear (bid instance) (book_authors s1)\<rparr>)) = Inr s2"
    and s': "s' = save obj s2"
    by (rule update_steps)
  let ?b = "bid instance"
  have fa: "tags s2 = tags s1 \<and> book_tags s2 = book_tags s1"
    using sa authors_frame by (cases authors_opt) auto
  have ft: "authors s1 = authors s \<and> book_authors s1 = book_authors s"
    using st tags_frame by (cases tags_opt) auto
  have T: "replaced u ns ?b (tags s) (tags s') (book_tags s')"
    if "map_of vd ''tags'' = Some (ANested (map Some ns))" for ns
  proof -
    from that dt have "tags_opt = Some (map Some ns)" by (simp add: descriptors_def)
    with st have g: "get_or_create_tags u (map Some ns) instance
                    (s\<lparr>book_tags := m2m_clear ?b (book_tags s)\<rparr>) = Inr s1" by simp
    from tags_step(1)[OF g] have r: "reconciled u ns ?b (tags s) (tags s1) (book_tags s1)"
      by simp
    from tags_step(2)[OF g] have l: "linked ?b (book_tags s1) = resolved_ids u ns (tags s1)"
      by simp
    from replaced_from_steps[OF r l] show ?thesis using fa by (simp add: s')
  qed
  have A: "replaced u ns ?b (authors s) (authors s') (book_authors s')"
    if "map_of vd ''authors'' = Some (ANested (map Some ns))" for ns
  proof -
    from that da have "authors_opt = Some (map Some ns)" by (simp add: descriptors_def)
    with sa have g: "get_or_create_authors u (map Some ns) instance
                    (s1\<lparr>book_authors := m2m_clear ?b (book_authors s1)\<rparr>) = Inr s2" by simp
    from authors_step(1)[OF g]
    have r: "reconciled u ns ?b (authors s) (authors s2) (book_authors s2)"
      using ft by simp
    from authors_step(2)[OF g]
    have l: "linked ?b (book_authors s2) = resolved_ids u ns (authors s2)" by simp
    from replaced_from_steps[OF r l] show ?thesis by (simp add: s')
  qed
  have TN: "book_tags s' = book_tags s \<and> tags s' = tags s" if "map_of vd ''tags'' = None"
  proof -
    from that dt have "tags_opt = None" by (simp add: descriptors_def)
    with st have "s1 = s" by simp
    then show ?thesis using fa by (simp add: s')
  qed
  have AN: "book_authors s' = book_authors s \<and> authors s' = authors s"
    if "map_of vd ''authors'' = None"
  proof -
    from that da have "authors_opt = None" by (simp add: descriptors_def)
    with sa have "s2 = s1" by simp
    then show ?thesis using ft by (simp add: s')
  qed
  have TE: "linked ?b (book_tags s') = {} \<and> tags s' = tags s"
    if "map_of vd ''tags'' = Some (ANested [])"
    using replaced_empty[OF T[of "[]"]] that by simp
  have AE: "linked ?b (book_authors s') = {} \<and> authors s' = authors s"
    if "map_of vd ''authors'' = Some (ANested [])"
    using replaced_empty[OF A[of "[]"]] that by simp
  have O: "linked b (book_tags s') = linked b (book_tags s)
            \<and> linked b (book_authors s') = linked b (book_authors s)" if b: "b \<noteq> ?b" for b
  proof -
    have 1: "linked b (book_tags s1) = linked b (book_tags s)"
    proof (cases tags_opt)
      case None
      with st show ?thesis by simp
    next
      case (Some ts)
      with st have "get_or_create_tags u ts instance
                      (s\<lparr>book_tags := m2m_clear ?b (book_tags s)\<rparr>) = Inr s1" by simp
      from tags_other_links[OF this b] show ?thesis by (simp add: linked_clear_other[OF b])
    qed
    have 2: "linked b (book_authors s2) = linked b (book_authors s1)"
    proof (cases authors_opt)
      case None
      with sa show ?thesis by simp
    next
      case (Some as)
      with sa have "get_or_create_authors u as instance
                      (s1\<lparr>book_authors := m2m_clear ?b (book_authors s1)\<rparr>) = Inr s2" by simp
      from authors_other_links[OF this b] show ?thesis by (simp add: linked_clear_other[OF b])
    qed
    from 1 2 fa ft show ?thesis by (simp add: s')
  qed
  have c1: "map_of vd ''tags'' = Some (ANested (map Some tag_names)) \<longrightarrow>
            replaced u tag_names ?b (tags s) (tags s') (book_tags s')" using T by simp
  have c2: "map_of vd ''tags'' = Some (ANested []) \<longrightarrow>
            linked ?b (book_tags s') = {} \<and> tags s' = tags s" using TE by simp
  have c3: "map_of vd ''tags'' = None \<longrightarrow> book_tags s' = book_tags s \<and> tags s' = tags s"
    using TN by simp
  have c4: "map_of vd ''authors'' = Some (ANested (map Some author_names)) \<longrightarrow>
            replaced u author_names ?b (authors s) (authors s') (book_authors s')"
    using A by simp
  have c5: "map_of vd ''authors'' = Some (ANested []) \<longrightarrow>
            linked ?b (book_authors s') = {} \<and> authors s' = authors s" using AE by simp
  have c6: "map_of vd ''authors'' = None \<longrightarrow>
            book_authors s' = book_authors s \<and> authors s' = authors s" using AN by simp
  have c7: "\<forall>b. b \<noteq> ?b \<longrightarrow>
            linked b (book_tags s') = linked b (book_tags s)
            \<and> linked b (book_authors s') = linked b (book_authors s)" using O by simp
  show ?thesis by (intro conjI c1 c2 c3 c4 c5 c6 c7)
qed

theorem update_replaces_associations_witness:
  "update 1 demo_book1
       [(''tags'', ANested (map Some [''z'', ''x'', ''z''])),
        (''authors'', ANested (map Some [''bob'']))] demo_store
     = Inr (demo_book1,
            demo_store\<lparr>tags := tags demo_store @ [\<lparr>nid = 5, nuser = 1, nname = ''z''\<rparr>],
                        authors := authors demo_store @ [\<lparr>nid = 2, nuser = 1, nname = ''bob''\<rparr>],
                        book_tags := [(3, 2), (2, 3), (1, 5), (1, 1)],
                        book_authors := [(1, 2)],
                        next_tag_id := 6, next_author_id := 3\<rparr>)
   \<and> replaced 1 [''z'', ''x'', ''z''] 1 (tags demo_store)
         (tags demo_store @ [\<lparr>nid = 5, nuser = 1, nname = ''z''\<rparr>])
         [(3, 2), (2, 3), (1, 5), (1, 1)]
   \<and> replaced 1 [''bob''] 1 (authors demo_store)
         (authors demo_store @ [\<lparr>nid = 2, nuser = 1, nname = ''bob''\<rparr>]) [(1, 2)]
   \<and> linked 1 (book_tags demo_store) = {1, 2}
   \<and> linked 1 [(3, 2), (2, 3), (1, 5), (1, 1)] = {1, 5}
   \<and> linked 1 (book_authors demo_store) = {1}
   \<and> linked 1 [(1, 2)] = {2}
   \<and> linked 3 [(3, 2), (2, 3), (1, 5), (1, 1)] = linked 3 (book_tags demo_store)
   \<and> update 1 demo_book1 [(''tags'', ANested []), (''authors'', ANested [])] demo_store
     = Inr (demo_book1, demo_store\<lparr>book_tags := [(3, 2), (2, 3)], book_authors := []\<rparr>)
   \<and> linked 1 [(3, 2), (2, 3)] = {}
   \<and> update 1 demo_book1 [(''title'', AText ''New'')] demo_store
     = Inr (demo_book1\<lparr>btitle := ''New''\<rparr>,
            demo_store\<lparr>books := [demo_book1\<lparr>btitle := ''New''\<rparr>, demo_book2, demo_book3]\<rparr>)"
proof -
  let ?v1 = "[(''tags'', ANested (map Some [''z'', ''x'', ''z''])),
              (''authors'', ANested (map Some [''bob'']))]"
  let ?s1 = "demo_store\<lparr>tags := tags demo_store @ [\<lparr>nid = 5, nuser = 1, nname = ''z''\<rparr>],
                        authors := authors demo_store @ [\<lparr>nid = 2, nuser = 1, nname = ''bob''\<rparr>],
                        book_tags := [(3, 2), (2, 3), (1, 5), (1, 1)],
                        book_authors := [(1, 2)],
                        next_tag_id := 6, next_author_id := 3\<rparr>"
  let ?v2 = "[(''tags'', ANested []), (''authors'', ANested [])]"
  let ?s2 = "demo_store\<lparr>book_tags := [(3, 2), (2, 3)], book_authors := []\<rparr>"
  let ?v3 = "[(''title'', AText ''New'')]"
  let ?s3 = "demo_store\<lparr>books := [demo_book1\<lparr>btitle := ''New''\<rparr>, demo_book2, demo_book3]\<rparr>"
  have b: "bid demo_book1 = 1" by (simp add: demo_book1_def)
  have u1: "update 1 demo_book1 ?v1 demo_store = Inr (demo_book1, ?s1)" by code_simp
  have u2: "update 1 demo_book1 ?v2 demo_store = Inr (demo_book1, ?s2)" by code_simp
  have u3: "update 1 demo_book1 ?v3 demo_store = Inr (demo_book1\<lparr>btitle := ''New''\<rparr>, ?s3)"
    by code_simp
  have l0: "linked 1 (book_tags demo_store) = {1, 2}" by code_simp
  have l1: "linked 1 [(3, 2), (2, 3), (1, 5), (1, 1)] = {1, 5}" by code_simp
  have l2: "linked 1 (book_authors demo_store) = {1}" by code_simp
  have l3: "linked 1 [(1, 2)] = {2}" by code_simp
  have l4: "linked 3 [(3, 2), (2, 3), (1, 5), (1, 1)] = linked 3 (book_tags demo_store)"
    by code_simp
  have l5: "linked 1 [(3, 2), (2, 3)] = {}" by code_simp
  from update_replaces_associations[OF u1, of "[''z'', ''x'', ''z'']" "[''bob'']"]
  have r1: "replaced 1 [''z'', ''x'', ''z''] 1 (tags demo_store)
         (tags demo_store @ [\<lparr>nid = 5, nuser = 1, nname = ''z''\<rparr>])
         [(3, 2), (2, 3), (1, 5), (1, 1)]"
    and r2: "replaced 1 [''bob''] 1 (authors demo_store)
         (authors demo_store @ [\<lparr>nid = 2, nuser = 1, nname = ''bob''\<rparr>]) [(1, 2)]"
    by (simp_all add: b)
  show ?thesis
    by (intro conjI u1 r1 r2 l0 l1 l2 l3 l4 u2 l5 u3)
qed

section \<open>Reconciliation reuses the records the user owns\<close>

text \<open>
  Claim C2. Whenever \<^verbatim>\<open>BookSerializer.create\<close> or \<^verbatim>\<open>BookSerializer.update\<close> returns and
  the validated data hold named tag descriptors, the tag table afterwards is the table
  before followed by new rows only (no existing record is changed); every new row belongs
  to the requesting user and carries a submitted name that the user did not own before; no
  two new rows share a name; every submitted name then matches exactly one record of the
  user (duplicate names collapse onto a single record); and every record the user owned
  before under a submitted name is linked to the book by its own identifier. This is the
  predicate \<open>reconciled\<close>. The same holds for author descriptors.
\<close>

theorem reconciliation_reuses_owned_records:
  "(create u vd s = Inr (obj, s') \<longrightarrow>
      (map_of vd ''tags'' = Some (ANested (map Some tag_names)) \<longrightarrow>
         reconciled u tag_names (bid obj) (tags s) (tags s') (book_tags s'))
    \<and> (map_of vd ''authors'' = Some (ANested (map Some author_names)) \<longrightarrow>
         reconciled u author_names (bid obj) (authors s) (authors s') (book_authors s')))
   \<and> (update u instance vd s = Inr (obj, s') \<longrightarrow>
      (map_of vd ''tags'' = Some (ANested (map Some tag_names)) \<longrightarrow>
         reconciled u tag_names (bid instance) (tags s) (tags s') (book_tags s'))
    \<and> (map_of vd ''authors'' = Some (ANested (map Some author_names)) \<longrightarrow>
         reconciled u author_names (bid instance) (authors s) (authors s') (book_authors s')))"
proof (intro conjI impI)
  assume c: "create u vd s = Inr (obj, s')"
  from c obtain tags_opt authors_opt s1 s2 where
    dt: "descriptors (map_of vd ''tags'') = Inr tags_opt"
    and da: "descriptors (map_of vd ''authors'') = Inr authors_opt"
    and bc: "book_objects_create (snd (pop ''authors'' (snd (pop ''tags'' vd)))) s = Inr (obj, s1)"
    and st: "get_or_create_tags u (case tags_opt of None \<Rightarrow> [] | Some ts \<Rightarrow> ts) obj s1 = Inr s2"
    and sa: "get_or_create_authors u (case authors_opt of None \<Rightarrow> [] | Some as \<Rightarrow> as) obj s2 = Inr s'"
    by (rule create_steps)
  note f1 = book_objects_create_frame[OF bc]
  note ft = tags_frame[OF st]
  note fa = authors_frame[OF sa]
  {
    assume "map_of vd ''tags'' = Some (ANested (map Some tag_names))"
    with dt have "tags_opt = Some (map Some tag_names)" by (simp add: descriptors_def)
    with st have "get_or_create_tags u (map Some tag_names) obj s1 = Inr s2" by simp
    from tags_step(1)[OF this]
    show "reconciled u tag_names (bid obj) (tags s) (tags s') (book_tags s')"
      using f1 fa by simp
  }
  {
    assume "map_of vd ''authors'' = Some (ANested (map Some author_names))"
    with da have "authors_opt = Some (map Some author_names)" by (simp add: descriptors_def)
    with sa have "get_or_create_authors u (map Some author_names) obj s2 = Inr s'" by simp
    from authors_step(1)[OF this]
    show "reconciled u author_names (bid obj) (authors s) (authors s') (book_authors s')"
      using f1 ft by simp
  }
next
  assume c: "update u instance vd s = Inr (obj, s')"
  from c obtain tags_opt authors_opt s1 s2 where
    dt: "descriptors (map_of vd ''tags'') = Inr tags_opt"
    and da: "descriptors (map_of vd ''authors'') = Inr authors_opt"
    and st: "(case tags_opt of None \<Rightarrow> Inr s
              | Some ts \<Rightarrow> get_or_create_tags u ts instance
                            (s\<lparr>book_tags := m2m_clear (bid instance) (book_tags s)\<rparr>)) = Inr s1"
    and sa: "(case authors_opt of None \<Rightarrow> Inr s1
              | Some as \<Rightarrow> get_or_create_authors u as instance
                            (s1\<lparr>book_authors := m2m_clear (bid instance) (book_authors s1)\<rparr>)) = Inr s2"
    and s': "s' = save obj s2"
    by (rule update_steps)
  have fa: "tags s2 = tags s1 \<and> book_tags s2 = book_tags s1"
    using sa authors_frame by (cases authors_opt) auto
  have ft: "authors s1 = authors s \<and> book_authors s1 = book_authors s"
    using st tags_frame by (cases tags_opt) auto
  {
    assume "map_of vd ''tags'' = Some (ANested (map Some tag_names))"
    with dt have "tags_opt = Some (map Some tag_names)" by (simp add: descriptors_def)
    with st have "get_or_create_tags u (map Some tag_names) instance
                    (s\<lparr>book_tags := m2m_clear (bid instance) (book_tags s)\<rparr>) = Inr s1" by simp
    from tags_step(1)[OF this]
    show "reconciled u tag_names (bid instance) (tags s) (tags s') (book_tags s')"
      using fa by (simp add: s')
  }
  {
    assume "map_of vd ''authors'' = Some (ANested (map Some author_names))"
    with da have "authors_opt = Some (map Some author_names)" by (simp add: descriptors_def)
    with sa have "get_or_create_authors u (map Some author_names) instance
                    (s1\<lparr>book_authors := m2m_clear (bid instance) (book_authors s1)\<rparr>) = Inr s2" by simp
    from authors_step(1)[OF this]
    show "reconciled u author_names (bid instance) (authors s) (authors s') (book_authors s')"
      using ft by (simp add: s')
  }
qed

theorem reconciliation_reuses_owned_records_witness:
  "(\<exists>obj s'. create 1 [(''title'', AText ''T''), (''price'', ADec 250),
                        (''tags'', ANested (map Some [''x'', ''w'', ''w''])),
                        (''authors'', ANested (map Some [''ann'', ''bob''])),
                        (''user'', AUser 1)] demo_store = Inr (obj, s')
       \<and> reconciled 1 [''x'', ''w'', ''w''] (bid obj) (tags demo_store) (tags s') (book_tags s')
       \<and> reconciled 1 [''ann'', ''bob''] (bid obj) (authors demo_store) (authors s')
            (book_authors s'))
   \<and> (\<exists>obj s'. update 1 demo_book3
                   [(''tags'', ANested (map Some [''x'', ''w'', ''w''])),
                    (''authors'', ANested (map Some [''ann'', ''bob'']))] demo_store
                   = Inr (obj, s')
       \<and> reconciled 1 [''x'', ''w'', ''w''] 3 (tags demo_store) (tags s') (book_tags s')
       \<and> reconciled 1 [''ann'', ''bob''] 3 (authors demo_store) (authors s')
            (book_authors s'))"
proof -
  let ?v1 = "[(''title'', AText ''T''), (''price'', ADec 250),
              (''tags'', ANested (map Some [''x'', ''w'', ''w''])),
              (''authors'', ANested (map Some [''ann'', ''bob''])),
              (''user'', AUser 1)]"
  let ?v2 = "[(''tags'', ANested (map Some [''x'', ''w'', ''w''])),
              (''authors'', ANested (map Some [''ann'', ''bob'']))]"
  have b: "bid demo_book3 = 3" by (simp add: demo_book3_def)
  have "\<not> isl (create 1 ?v1 demo_store)" by code_simp
  then obtain o1 s1 where u1: "create 1 ?v1 demo_store = Inr (o1, s1)"
    by (cases "create 1 ?v1 demo_store") auto
  have "\<not> isl (update 1 demo_book3 ?v2 demo_store)" by code_simp
  then obtain o2 s2 where u2: "update 1 demo_book3 ?v2 demo_store = Inr (o2, s2)"
    by (cases "update 1 demo_book3 ?v2 demo_store") auto
  from reconciliation_reuses_owned_records
         [of 1 ?v1 demo_store o1 s1 "[''x'', ''w'', ''w'']" "[''ann'', ''bob'']"] u1
  have c1: "reconciled 1 [''x'', ''w'', ''w''] (bid o1) (tags demo_store) (tags s1) (book_tags s1)
          \<and> reconciled 1 [''ann'', ''bob''] (bid o1) (authors demo_store) (authors s1)
               (book_authors s1)"
    by simp
  from reconciliation_reuses_owned_records
         [of 1 ?v2 demo_store o2 s2 "[''x'', ''w'', ''w'']" "[''ann'', ''bob'']" demo_book3] u2
  have c2: "reconciled 1 [''x'', ''w'', ''w''] 3 (tags demo_store) (tags s2) (book_tags s2)
          \<and> reconciled 1 [''ann'', ''bob''] 3 (authors demo_store) (authors s2)
               (book_authors s2)"
    by (simp add: b)
  from u1 u2 c1 c2 show ?thesis by blast
qed

section \<open>The Book listing\<close>



section \<open>The Tag and Author listings\<close>

text \<open>
  Claim C5. \<^verbatim>\<open>BaseBookAttrViewSet.get_queryset\<close>, for tags and for authors: when
  \<^verbatim>\<open>assigned_only\<close> is absent or \<^verbatim>\<open>0\<close>, it returns exactly the records of the requesting
  user, those referenced by no book included; when it is \<^verbatim>\<open>1\<close>, it returns exactly the
  records of the user that at least one book references. In both cases no record occurs
  twice, also when several books reference it, and the records are in descending order
  of their names.
\<close>

theorem attribute_listing_is_owned_ordered_and_distinct:
  "((map_of q ''assigned_only'' = None \<or> map_of q ''assigned_only'' = Some ''0'') \<longrightarrow>
      (\<exists>result. attr_get_queryset k u q s = Inr result
         \<and> set result = {t \<in> set (rows_of k s). nuser t = u}
         \<and> distinct result
         \<and> sorted_wrt (\<lambda>a b. nname b \<le> nname a) result))
   \<and> (map_of q ''assigned_only'' = Some ''1'' \<longrightarrow>
      (\<exists>result. attr_get_queryset k u q s = Inr result
         \<and> set result = {t \<in> set (rows_of k s). nuser t = u \<and> assigned (links_of k s) t}
         \<and> distinct result
         \<and> sorted_wrt (\<lambda>a b. nname b \<le> nname a) result))"
proof -
  have z: "py_int ''0'' = Inr 0" by code_simp
  have o: "py_int ''1'' = Inr 1" by code_simp
  show ?thesis
    unfolding attr_get_queryset_def
    by (auto simp: z o Let_def sorted_listing set_filter_book_notnull)
qed

theorem attribute_listing_is_owned_ordered_and_distinct_witness:
  "map_of ([] :: (string \<times> string) list) ''assigned_only'' = None
   \<and> attr_get_queryset Tag 1 [] demo_store
       = Inr [\<lparr>nid = 2, nuser = 1, nname = ''y''\<rparr>, \<lparr>nid = 1, nuser = 1, nname = ''x''\<rparr>,
              \<lparr>nid = 4, nuser = 1, nname = ''q''\<rparr>]
   \<and> attr_get_queryset Tag 1 [(''assigned_only'', ''0'')] demo_store
       = attr_get_queryset Tag 1 [] demo_store
   \<and> map_of [(''assigned_only'', ''1'')] ''assigned_only'' = Some ''1''
   \<and> attr_get_queryset Tag 1 [(''assigned_only'', ''1'')] demo_store
       = Inr [\<lparr>nid = 2, nuser = 1, nname = ''y''\<rparr>, \<lparr>nid = 1, nuser = 1, nname = ''x''\<rparr>]
   \<and> (\<exists>result. attr_get_queryset Tag 1 [(''assigned_only'', ''1'')] demo_store = Inr result
         \<and> set result = {t \<in> set (rows_of Tag demo_store).
                            nuser t = 1 \<and> assigned (links_of Tag demo_store) t}
         \<and> distinct result
         \<and> sorted_wrt (\<lambda>a b. nname b \<le> nname a) result)
   \<and> (\<exists>result. attr_get_queryset Author 1 [] demo_store = Inr result
         \<and> set result = {t \<in> set (rows_of Author demo_store). nuser t = 1}
         \<and> distinct result
         \<and> sorted_wrt (\<lambda>a b. nname b \<le> nname a) result)"
proof -
  have 1: "map_of ([] :: (string \<times> string) list) ''assigned_only'' = None" by simp
  have 2: "attr_get_queryset Tag 1 [] demo_store
       = Inr [\<lparr>nid = 2, nuser = 1, nname = ''y''\<rparr>, \<lparr>nid = 1, nuser = 1, nname = ''x''\<rparr>,
              \<lparr>nid = 4, nuser = 1, nname = ''q''\<rparr>]" by code_simp
  have 3: "attr_get_queryset Tag 1 [(''assigned_only'', ''0'')] demo_store
       = attr_get_queryset Tag 1 [] demo_store" by code_simp
  have 4: "map_of [(''assigned_only'', ''1'')] ''assigned_only'' = Some ''1''" by simp
  have 5: "attr_get_queryset Tag 1 [(''assigned_only'', ''1'')] demo_store
       = Inr [\<lparr>nid = 2, nuser = 1, nname = ''y''\<rparr>, \<lparr>nid = 1, nuser = 1, nname = ''x''\<rparr>]"
    by code_simp
  from attribute_listing_is_owned_ordered_and_distinct
         [of "[(''assigned_only'', ''1'')]" Tag 1 demo_store] 4
  have 6: "\<exists>result. attr_get_queryset Tag 1 [(''assigned_only'', ''1'')] demo_store = Inr result
         \<and> set result = {t \<in> set (rows_of Tag demo_store).
                            nuser t = 1 \<and> assigned (links_of Tag demo_store) t}
         \<and> distinct result
         \<and> sorted_wrt (\<lambda>a b. nname b \<le> nname a) result"
    by blast
  from attribute_listing_is_owned_ordered_and_distinct[of "[]" Author 1 demo_store] 1
  have 7: "\<exists>result. attr_get_queryset Author 1 [] demo_store = Inr result
         \<and> set result = {t \<in> set (rows_of Author demo_store). nuser t = 1}
         \<and> distinct result
         \<and> sorted_wrt (\<lambda>a b. nname b \<le> nname a) result"
    by blast
  from 1 2 3 4 5 6 7 show ?thesis by blast
qed

section \<open>An empty filter parameter\<close>

text \<open>
  Claim C10. When the \<^verbatim>\<open>tags\<close> (or \<^verbatim>\<open>authors\<close>) parameter is present and equal to the
  empty string, \<^verbatim>\<open>BookViewSet.get_queryset\<close> does what it does for the request without
  that parameter; and when each of the two parameters is absent or empty, the result is
  that of the request with no parameter at all: every book of the requesting user.
\<close>

theorem empty_filter_parameter_is_no_filter:
  "(map_of q ''tags'' = Some [] \<longrightarrow>
      get_queryset u q s = get_queryset u (filter (\<lambda>kv. fst kv \<noteq> ''tags'') q) s)
   \<and> (map_of q ''authors'' = Some [] \<longrightarrow>
      get_queryset u q s = get_queryset u (filter (\<lambda>kv. fst kv \<noteq> ''authors'') q) s)
   \<and> ((map_of q ''tags'' = None \<or> map_of q ''tags'' = Some [])
        \<and> (map_of q ''authors'' = None \<or> map_of q ''authors'' = Some []) \<longrightarrow>
      get_queryset u q s = get_queryset u [] s
      \<and> (\<exists>result. get_queryset u q s = Inr result
            \<and> set result = {b \<in> set (books s). buser b = u}))"
proof -
  have t: "map_of (filter (\<lambda>kv. fst kv \<noteq> ''tags'') q) ''tags'' = None"
    by (induction q) auto
  have ta: "map_of (filter (\<lambda>kv. fst kv \<noteq> ''tags'') q) ''authors'' = map_of q ''authors''"
    by (induction q) auto
  have a: "map_of (filter (\<lambda>kv. fst kv \<noteq> ''authors'') q) ''authors'' = None"
    by (induction q) auto
  have at: "map_of (filter (\<lambda>kv. fst kv \<noteq> ''authors'') q) ''tags'' = map_of q ''tags''"
    by (induction q) auto
  show ?thesis
    unfolding get_queryset_def t ta a at
    by (auto split: option.splits sum.splits)
qed

theorem empty_filter_parameter_is_no_filter_witness:
  "map_of [(''tags'', ''''), (''authors'', '''')] ''tags'' = Some []
   \<and> map_of [(''tags'', ''''), (''authors'', '''')] ''authors'' = Some []
   \<and> get_queryset 1 [(''tags'', ''''), (''authors'', '''')] demo_store
       = get_queryset 1 [] demo_store
   \<and> get_queryset 1 [(''tags'', ''''), (''authors'', '''')] demo_store
       = Inr [demo_book3, demo_book1]"
proof -
  have 1: "map_of [(''tags'', ''''), (''authors'', '''')] ''tags'' = Some []" by simp
  have 2: "map_of [(''tags'', ''''), (''authors'', '''')] ''authors'' = Some []" by simp
  from empty_filter_parameter_is_no_filter
         [of "[(''tags'', ''''), (''authors'', '''')]" 1 demo_store] 1 2
  have 3: "get_queryset 1 [(''tags'', ''''), (''authors'', '''')] demo_store
            = get_queryset 1 [] demo_store" by blast
  have 4: "get_queryset 1 [] demo_store = Inr [demo_book3, demo_book1]" by code_simp
  from 1 2 3 4 show ?thesis by simp
qed

section \<open>List and detail representations\<close>

text \<open>
  Claim C8. The list action serializes with \<^verbatim>\<open>BookSerializer\<close>, whose representation of
  a book has exactly the fields id, title, price, link, tags and authors, each tag and
  author as its id and name, and has neither a description nor an image; the detail action
  serializes with \<^verbatim>\<open>BookDetailSerializer\<close>, whose representation is the list
  representation of the same book followed by the description and the image, so the shared
  fields carry the same values.
\<close>

theorem list_and_detail_representations:
  "get_serializer_class List = BookSerializer
   \<and> get_serializer_class Retrieve = BookDetailSerializer
   \<and> to_representation BookSerializer s b =
       [(''id'', RNum (bid b)), (''title'', RText (btitle b)), (''price'', RDec (bprice b)),
        (''link'', RText (blink b)),
        (''tags'', RObjects (map (\<lambda>t. [(''id'', RNum (nid t)), (''name'', RText (nname t))])
                               (related (bid b) (book_tags s) (tags s)))),
        (''authors'', RObjects (map (\<lambda>t. [(''id'', RNum (nid t)), (''name'', RText (nname t))])
                                  (related (bid b) (book_authors s) (authors s))))]
   \<and> to_representation BookDetailSerializer s b =
       to_representation BookSerializer s b
       @ [(''description'', RText (bdescription b)),
          (''image'', (case bimage b of None \<Rightarrow> RNull | Some i \<Rightarrow> RText i))]
   \<and> map_of (to_representation BookSerializer s b) ''description'' = None
   \<and> map_of (to_representation BookSerializer s b) ''image'' = None"
  by (simp add: get_serializer_class_def to_representation_def meta_fields_def
        book_serializer_fields_def field_value_def named_representation_def)

section \<open>An update never changes the owner\<close>

text \<open>
  Claim C9. For every update request on a book, full or partial, whatever its body holds
  (a key \<^verbatim>\<open>user\<close> included) and whatever its outcome, every book of the store has
  afterwards the owner it had before, and the books are the same ones by identifier: the
  serializer has no field \<^verbatim>\<open>user\<close>, so the validated data never hold that key, and
  \<^verbatim>\<open>update\<close> sets only validated items. The book table has a primary key.
\<close>

theorem update_keeps_the_owner:
  assumes "distinct (map bid (books s))"
  shows "map buser (books (snd (book_update partial req pk s))) = map buser (books s)
       \<and> map bid (books (snd (book_update partial req pk s))) = map bid (books s)"
proof (cases "req_user req")
  case None
  then show ?thesis by (simp add: book_update_def)
next
  case (Some u)
  note u = this
  show ?thesis
  proof (cases "get_object u (req_query_params req) pk s")
    case (Inl e)
    with u show ?thesis by (simp add: book_update_def)
  next
    case (Inr found)
    note g = this
    show ?thesis
    proof (cases found)
      case None
      with u g show ?thesis by (simp add: book_update_def)
    next
      case (Some inst)
      note i = this
      let ?cls = "get_serializer_class (if partial then PartialUpdate else Update)"
      show ?thesis
      proof (cases "run_validation ?cls partial (req_data req)")
        case (Inl errs)
        with u g i show ?thesis by (simp add: book_update_def)
      next
        case (Inr vd)
        note v = this
        show ?thesis
        proof (cases "update u inst vd s")
          case (Inl e)
          with u g i v show ?thesis by (simp add: book_update_def)
        next
          case (Inr r)
          obtain obj s' where r: "r = (obj, s')" by (cases r)
          let ?vd = "snd (pop ''authors'' (snd (pop ''tags'' vd)))"
          have nu: "''user'' \<notin> fst ` set ?vd"
            using validated_no_user[OF v] pop_keys by blast
          have inst: "inst \<in> set (books s)"
            using get_object_Some(1)[of u "req_query_params req" pk s inst] g i by simp
          have b: "books s' = books (save (setattrs ?vd inst) s)"
            using update_books[of u inst vd s obj s'] Inr r by simp
          have "snd (book_update partial req pk s) = s'"
            using u g i v Inr r by (simp add: book_update_def)
          moreover have "map buser (books s') = map buser (books s)"
            unfolding b
            by (rule save_keeps_owners(1)[OF assms inst]) (simp_all add: buser_setattrs[OF nu])
          moreover have "map bid (books s') = map bid (books s)"
            unfolding b
            by (rule save_keeps_owners(2)[OF assms inst]) (simp_all add: buser_setattrs[OF nu])
          ultimately show ?thesis by simp
        qed
      qed
    qed
  qed
qed

theorem update_keeps_the_owner_witness:
  "distinct (map bid (books demo_store))
   \<and> map buser (books (snd (book_update True
          \<lparr>req_user = Some 1, req_query_params = [],
             req_data = [(''title'', VText ''New''), (''user'', VNum 2)]\<rparr> 1 demo_store)))
       = map buser (books demo_store)
   \<and> map bid (books (snd (book_update True
          \<lparr>req_user = Some 1, req_query_params = [],
             req_data = [(''title'', VText ''New''), (''user'', VNum 2)]\<rparr> 1 demo_store)))
       = map bid (books demo_store)
   \<and> map btitle (books (snd (book_update True
          \<lparr>req_user = Some 1, req_query_params = [],
             req_data = [(''title'', VText ''New''), (''user'', VNum 2)]\<rparr> 1 demo_store)))
       = [''New'', ''B'', ''C'']
   \<and> map buser (books demo_store) = [1, 2, 1]"
proof -
  have d: "distinct (map bid (books demo_store))" by code_simp
  have t: "map btitle (books (snd (book_update True
          \<lparr>req_user = Some 1, req_query_params = [],
             req_data = [(''title'', VText ''New''), (''user'', VNum 2)]\<rparr> 1 demo_store)))
       = [''New'', ''B'', ''C'']" by code_simp
  have o: "map buser (books demo_store) = [1, 2, 1]" by code_simp
  from update_keeps_the_owner[OF d, of True
         "\<lparr>req_user = Some 1, req_query_params = [],
            req_data = [(''title'', VText ''New''), (''user'', VNum 2)]\<rparr>" 1] d t o
  show ?thesis by simp
qed

section \<open>Records of other users\<close>

text \<open>
  Claim C3, as stated, fails: \<^verbatim>\<open>get_object\<close> calls \<^verbatim>\<open>get_queryset\<close>, which parses the
  query parameters of every request, so a delete request of user 1 aimed at a book (or a
  tag) of user 2 whose \<^verbatim>\<open>tags\<close> (or \<^verbatim>\<open>assigned_only\<close>) parameter is not an integer
  raises \<^verbatim>\<open>ValueError\<close> instead of answering 404. The record is untouched all the same.
\<close>

theorem foreign_records_counterexample:
  "book_destroy \<lparr>req_user = Some 1, req_query_params = [(''tags'', ''abc'')], req_data = []\<rparr>
       2 demo_store = (Inl ValueError, demo_store)
   \<and> attr_destroy Tag
        \<lparr>req_user = Some 1, req_query_params = [(''assigned_only'', ''yes'')], req_data = []\<rparr>
        3 demo_store = (Inl ValueError, demo_store)
   \<and> buser demo_book2 = 2 \<and> demo_book2 \<in> set (books demo_store)
   \<and> \<lparr>nid = 3, nuser = 2, nname = ''x''\<rparr> \<in> set (tags demo_store)"
  by code_simp

text \<open>
  Claim C3, amended. For an authenticated retrieve, update, partial update, delete or
  image-upload request on a book, and an update, partial update or delete request on a
  tag or an author, aimed at an identifier under which the requester owns no record
  (a record of another user, or no record at all): the store is unchanged whatever the
  query parameters are; and when the query parameters are well-formed (\<^verbatim>\<open>tags\<close> and
  \<^verbatim>\<open>authors\<close> absent, empty or comma-separated pieces of one to eighteen ASCII decimal
  digits each, with no sign, blank or underscore; \<^verbatim>\<open>assigned_only\<close> absent or one such
  piece), the response is the one 404 response, the same for a foreign and for a missing
  identifier. Whatever \<^verbatim>\<open>get_queryset\<close> returns for a list request holds records of
  the requester only.
\<close>

theorem foreign_records_are_not_found:
  assumes "req_user req = Some u"
  shows "(\<not> (\<exists>b\<in>set (books s). bid b = pk \<and> buser b = u) \<longrightarrow>
            (ids_param_ok (map_of (req_query_params req) ''tags'')
             \<and> ids_param_ok (map_of (req_query_params req) ''authors'') \<longrightarrow>
               book_retrieve req pk s = (Inr not_found, s)
             \<and> book_update partial req pk s = (Inr not_found, s)
             \<and> book_destroy req pk s = (Inr not_found, s)
             \<and> upload_image req pk s = (Inr not_found, s))
          \<and> snd (book_retrieve req pk s) = s
          \<and> snd (book_update partial req pk s) = s
          \<and> snd (book_destroy req pk s) = s
          \<and> snd (upload_image req pk s) = s)
       \<and> (\<not> (\<exists>t\<in>set (rows_of k s). nid t = pk' \<and> nuser t = u) \<longrightarrow>
            (flag_param_ok (map_of (req_query_params req) ''assigned_only'') \<longrightarrow>
               attr_update k partial req pk' s = (Inr not_found, s)
             \<and> attr_destroy k req pk' s = (Inr not_found, s))
          \<and> snd (attr_update k partial req pk' s) = s
          \<and> snd (attr_destroy k req pk' s) = s)
       \<and> (\<forall>result. get_queryset u (req_query_params req) s = Inr result \<longrightarrow>
             (\<forall>b\<in>set result. buser b = u))
       \<and> (\<forall>result. attr_get_queryset k u (req_query_params req) s = Inr result \<longrightarrow>
             (\<forall>t\<in>set result. nuser t = u))"
proof -
  let ?q = "req_query_params req"
  have B: "book_retrieve req pk s = (Inr not_found, s)
             \<and> book_update partial req pk s = (Inr not_found, s)
             \<and> book_destroy req pk s = (Inr not_found, s)
             \<and> upload_image req pk s = (Inr not_found, s)"
    if no: "\<not> (\<exists>b\<in>set (books s). bid b = pk \<and> buser b = u)"
      and ok: "ids_param_ok (map_of ?q ''tags'')" "ids_param_ok (map_of ?q ''authors'')"
  proof -
    from get_queryset_returns[OF ok] obtain result where "get_queryset u ?q s = Inr result"
      by blast
    from get_object_not_owned[OF no this] have "get_object u ?q pk s = Inr None" .
    then show ?thesis
      by (simp add: book_retrieve_def book_update_def book_destroy_def upload_image_def assms)
  qed
  have BS: "snd (book_retrieve req pk s) = s
          \<and> snd (book_update partial req pk s) = s
          \<and> snd (book_destroy req pk s) = s
          \<and> snd (upload_image req pk s) = s"
    if no: "\<not> (\<exists>b\<in>set (books s). bid b = pk \<and> buser b = u)"
  proof (cases "get_queryset u ?q s")
    case (Inl e)
    then have "get_object u ?q pk s = Inl e" by (simp add: get_object_def)
    then show ?thesis
      by (simp add: book_retrieve_def book_update_def book_destroy_def upload_image_def assms)
  next
    case (Inr result)
    from get_object_not_owned[OF no this] have "get_object u ?q pk s = Inr None" .
    then show ?thesis
      by (simp add: book_retrieve_def book_update_def book_destroy_def upload_image_def assms)
  qed
  have A: "attr_update k partial req pk' s = (Inr not_found, s)
             \<and> attr_destroy k req pk' s = (Inr not_found, s)"
    if no: "\<not> (\<exists>t\<in>set (rows_of k s). nid t = pk' \<and> nuser t = u)"
      and ok: "flag_param_ok (map_of ?q ''assigned_only'')"
  proof -
    from attr_get_queryset_returns[OF ok] obtain result where
      "attr_get_queryset k u ?q s = Inr result" by blast
    from attr_get_object_not_owned[OF no this] have "attr_get_object k u ?q pk' s = Inr None" .
    then show ?thesis by (simp add: attr_update_def attr_destroy_def assms)
  qed
  have AS: "snd (attr_update k partial req pk' s) = s \<and> snd (attr_destroy k req pk' s) = s"
    if no: "\<not> (\<exists>t\<in>set (rows_of k s). nid t = pk' \<and> nuser t = u)"
  proof (cases "attr_get_queryset k u ?q s")
    case (Inl e)
    then have "attr_get_object k u ?q pk' s = Inl e" by (simp add: attr_get_object_def)
    then show ?thesis by (simp add: attr_update_def attr_destroy_def assms)
  next
    case (Inr result)
    from attr_get_object_not_owned[OF no this] have "attr_get_object k u ?q pk' s = Inr None" .
    then show ?thesis by (simp add: attr_update_def attr_destroy_def assms)
  qed
  have L: "\<forall>result. get_queryset u ?q s = Inr result \<longrightarrow> (\<forall>b\<in>set result. buser b = u)"
    using get_queryset_owned by blast
  have LA: "\<forall>result. attr_get_queryset k u ?q s = Inr result \<longrightarrow> (\<forall>t\<in>set result. nuser t = u)"
    using attr_get_queryset_owned(1) by blast
  from B BS A AS L LA show ?thesis by blast
qed

theorem foreign_records_are_not_found_witness:
  "req_user demo_request = Some 1
   \<and> \<not> (\<exists>b\<in>set (books demo_store). bid b = 2 \<and> buser b = 1)
   \<and> ids_param_ok (map_of (req_query_params demo_request) ''tags'')
   \<and> ids_param_ok (map_of (req_query_params demo_request) ''authors'')
   \<and> book_retrieve demo_request 2 demo_store = (Inr not_found, demo_store)
   \<and> book_update True demo_request 2 demo_store = (Inr not_found, demo_store)
   \<and> book_destroy demo_request 2 demo_store = (Inr not_found, demo_store)
   \<and> upload_image demo_request 2 demo_store = (Inr not_found, demo_store)
   \<and> book_destroy demo_request 99 demo_store = book_destroy demo_request 2 demo_store
   \<and> \<not> (\<exists>t\<in>set (rows_of Tag demo_store). nid t = 3 \<and> nuser t = 1)
   \<and> flag_param_ok (map_of (req_query_params demo_request) ''assigned_only'')
   \<and> attr_update Tag True demo_request 3 demo_store = (Inr not_found, demo_store)
   \<and> attr_destroy Tag demo_request 3 demo_store = (Inr not_found, demo_store)
   \<and> get_queryset 1 (req_query_params demo_request) demo_store = Inr [demo_book3, demo_book1]
   \<and> buser demo_book3 = 1 \<and> buser demo_book1 = 1"
proof -
  have u: "req_user demo_request = Some 1" by (simp add: demo_request_def)
  have n2: "\<not> (\<exists>b\<in>set (books demo_store). bid b = 2 \<and> buser b = 1)" by code_simp
  have n99: "\<not> (\<exists>b\<in>set (books demo_store). bid b = 99 \<and> buser b = 1)" by code_simp
  have n3: "\<not> (\<exists>t\<in>set (rows_of Tag demo_store). nid t = 3 \<and> nuser t = 1)" by code_simp
  have p1: "ids_param_ok (map_of (req_query_params demo_request) ''tags'')" by code_simp
  have p2: "ids_param_ok (map_of (req_query_params demo_request) ''authors'')" by code_simp
  have p3: "flag_param_ok (map_of (req_query_params demo_request) ''assigned_only'')"
    by code_simp
  have l: "get_queryset 1 (req_query_params demo_request) demo_store
             = Inr [demo_book3, demo_book1]" by code_simp
  have o: "buser demo_book3 = 1 \<and> buser demo_book1 = 1"
    by (simp add: demo_book3_def demo_book1_def)
  note a = foreign_records_are_not_found[OF u, of demo_store 2 True Tag 3]
  note b = foreign_records_are_not_found[OF u, of demo_store 99 True Tag 3]
  from a n2 p1 p2 have 1: "book_retrieve demo_request 2 demo_store = (Inr not_found, demo_store)
     \<and> book_update True demo_request 2 demo_store = (Inr not_found, demo_store)
     \<and> book_destroy demo_request 2 demo_store = (Inr not_found, demo_store)
     \<and> upload_image demo_request 2 demo_store = (Inr not_found, demo_store)" by blast
  from b n99 p1 p2 have 2: "book_destroy demo_request 99 demo_store = (Inr not_found, demo_store)"
    by blast
  from a n3 p3 have 3: "attr_update Tag True demo_request 3 demo_store = (Inr not_found, demo_store)
     \<and> attr_destroy Tag demo_request 3 demo_store = (Inr not_found, demo_store)" by blast
  from u n2 p1 p2 1 2 n3 p3 3 l o show ?thesis by simp
qed

section \<open>Which requests are answered\<close>

text \<open>
  Claim C7, as stated, fails: a list request whose \<^verbatim>\<open>tags\<close> or \<^verbatim>\<open>authors\<close> parameter
  has a piece that is no integer, or whose \<^verbatim>\<open>assigned_only\<close> parameter is no integer,
  makes \<^verbatim>\<open>int\<close> raise \<^verbatim>\<open>ValueError\<close> inside \<^verbatim>\<open>get_queryset\<close>; nothing catches it, so
  the request ends with no response of the documented set. Two more calls can raise,
  \<^verbatim>\<open>MultipleObjectsReturned\<close> from \<^verbatim>\<open>get_or_create\<close>: when the user owns two tags of one
  name (reached here by renaming tag 2 through the Tag endpoint), and when a partial update
  submits a descriptor without a name and the user owns several tags.
\<close>

theorem malformed_parameters_counterexample:
  "book_list \<lparr>req_user = Some 1, req_query_params = [(''tags'', ''abc'')], req_data = []\<rparr>
     demo_store = (Inl ValueError, demo_store)
   \<and> \<not> documented
         (book_list \<lparr>req_user = Some 1, req_query_params = [(''tags'', ''abc'')], req_data = []\<rparr>
            demo_store)
   \<and> book_list \<lparr>req_user = Some 1, req_query_params = [(''authors'', ''1,,2'')], req_data = []\<rparr>
        demo_store = (Inl ValueError, demo_store)
   \<and> attr_list Tag
        \<lparr>req_user = Some 1, req_query_params = [(''assigned_only'', ''yes'')], req_data = []\<rparr>
        demo_store = (Inl ValueError, demo_store)
   \<and> \<not> documented
         (attr_list Author
            \<lparr>req_user = Some 1, req_query_params = [(''assigned_only'', ''yes'')],
               req_data = []\<rparr> demo_store)
   \<and> fst (book_create
          \<lparr>req_user = Some 1, req_query_params = [],
             req_data = [(''title'', VText ''T''), (''price'', VNum 1),
                         (''tags'', VList [VObj [(''name'', VText ''x'')]])]\<rparr>
          (snd (attr_update Tag True
                  \<lparr>req_user = Some 1, req_query_params = [],
                     req_data = [(''name'', VText ''x'')]\<rparr> 2 demo_store)))
       = Inl MultipleObjectsReturned
   \<and> fst (book_update True
          \<lparr>req_user = Some 1, req_query_params = [],
             req_data = [(''tags'', VList [VObj []])]\<rparr> 1 demo_store)
       = Inl MultipleObjectsReturned"
  by code_simp

text \<open>
  Claim C7, amended. A request, authenticated or not, to any of the nine endpoints is
  answered with one of the documented status codes 200, 201, 204, 400, 401 and 404,
  provided that its \<^verbatim>\<open>tags\<close> and \<^verbatim>\<open>authors\<close> parameters are absent, empty or
  comma-separated pieces of one to eighteen ASCII decimal digits each (no sign, blank or
  underscore) and its \<^verbatim>\<open>assigned_only\<close> parameter is absent or one such piece, that
  the tables have primary keys, that no user owns two tags or two authors of one name,
  and that, in a partial update, every nested descriptor carries a name.
\<close>

theorem well_formed_requests_are_answered:
  assumes "ids_param_ok (map_of (req_query_params req) ''tags'')"
    and "ids_param_ok (map_of (req_query_params req) ''authors'')"
    and "flag_param_ok (map_of (req_query_params req) ''assigned_only'')"
    and "distinct (map bid (books s))"
    and "distinct (map nid (rows_of k s))"
    and "unique_names (tags s)" and "unique_names (authors s)"
    and "partial \<longrightarrow> named_descriptors (map_of (req_data req) ''tags'')"
    and "partial \<longrightarrow> named_descriptors (map_of (req_data req) ''authors'')"
  shows "documented (book_list req s)
       \<and> documented (book_retrieve req pk s)
       \<and> documented (book_create req s)
       \<and> documented (book_update partial req pk s)
       \<and> documented (book_destroy req pk s)
       \<and> documented (upload_image req pk s)
       \<and> documented (attr_list k req s)
       \<and> documented (attr_update k partial req pk s)
       \<and> documented (attr_destroy k req pk s)"
proof (cases "req_user req")
  case None
  then show ?thesis
    by (simp add: documented_def book_list_def book_retrieve_def book_create_def
          book_update_def book_destroy_def upload_image_def attr_list_def attr_update_def
          attr_destroy_def not_authenticated_def)
next
  case (Some u)
  let ?q = "req_query_params req"
  from get_queryset_returns[OF assms(1,2)] obtain result where
    qs: "get_queryset u ?q s = Inr result" by blast
  from attr_get_queryset_returns[OF assms(3)] obtain aresult where
    aqs: "attr_get_queryset k u ?q s = Inr aresult" by blast
  from get_object_returns[OF assms(1,2,4)] obtain found where
    go: "get_object u ?q pk s = Inr found" by blast
  from attr_get_object_returns[OF assms(3,5)] obtain afound where
    ago: "attr_get_object k u ?q pk s = Inr afound" by blast
  have 1: "documented (book_list req s)"
    by (simp add: documented_def book_list_def Some qs)
  have 2: "documented (book_retrieve req pk s)"
    by (cases found) (simp_all add: documented_def book_retrieve_def Some go not_found_def)
  have 3: "documented (book_create req s)"
  proof (cases "run_validation BookDetailSerializer False (req_data req)")
    case (Inl errs)
    then show ?thesis
      by (simp add: documented_def book_create_def Some get_serializer_class_def bad_request_def)
  next
    case (Inr vd)
    from perform_create_returns[OF Inr assms(6,7)] obtain obj s' where
      "perform_create u vd s = Inr (obj, s')" by blast
    with Inr show ?thesis
      by (simp add: documented_def book_create_def Some get_serializer_class_def)
  qed
  have 4: "documented (book_update partial req pk s)"
  proof (cases found)
    case None
    then show ?thesis by (simp add: documented_def book_update_def Some go not_found_def)
  next
    case (Some inst)
    note f = this
    have cls: "get_serializer_class (if partial then PartialUpdate else Update)
                 = BookDetailSerializer" by (simp add: get_serializer_class_def)
    show ?thesis
    proof (cases "run_validation BookDetailSerializer partial (req_data req)")
      case (Inl errs)
      then show ?thesis
        by (simp add: documented_def book_update_def \<open>req_user req = Some u\<close> go f cls
              bad_request_def)
    next
      case (Inr vd)
      from update_returns[OF Inr assms(8,9,6,7)] obtain obj s' where
        "update u inst vd s = Inr (obj, s')" by blast
      with Inr show ?thesis
        by (simp add: documented_def book_update_def \<open>req_user req = Some u\<close> go f cls)
    qed
  qed
  have 5: "documented (book_destroy req pk s)"
    by (cases found) (simp_all add: documented_def book_destroy_def Some go not_found_def)
  have 6: "documented (upload_image req pk s)"
  proof (cases found)
    case None
    then show ?thesis by (simp add: documented_def upload_image_def Some go not_found_def)
  next
    case (Some book)
    then show ?thesis
      by (cases "run_validation (get_serializer_class UploadImage) False (req_data req)")
         (simp_all add: documented_def upload_image_def \<open>req_user req = Some u\<close> go
            bad_request_def model_update_def Let_def)
  qed
  have 7: "documented (attr_list k req s)"
    by (simp add: documented_def attr_list_def Some aqs)
  have 8: "documented (attr_update k partial req pk s)"
  proof (cases afound)
    case None
    then show ?thesis by (simp add: documented_def attr_update_def Some ago not_found_def)
  next
    case (Some inst)
    then show ?thesis
      by (cases "validate_named partial (VObj (req_data req))")
         (simp_all add: documented_def attr_update_def \<open>req_user req = Some u\<close> ago
            bad_request_def Let_def)
  qed
  have 9: "documented (attr_destroy k req pk s)"
    by (cases afound) (simp_all add: documented_def attr_destroy_def Some ago not_found_def)
  from 1 2 3 4 5 6 7 8 9 show ?thesis by simp
qed

theorem well_formed_requests_are_answered_witness:
  "ids_param_ok (map_of (req_query_params demo_patch) ''tags'')
   \<and> ids_param_ok (map_of (req_query_params demo_patch) ''authors'')
   \<and> flag_param_ok (map_of (req_query_params demo_patch) ''assigned_only'')
   \<and> distinct (map bid (books demo_store))
   \<and> distinct (map nid (rows_of Tag demo_store))
   \<and> unique_names (tags demo_store) \<and> unique_names (authors demo_store)
   \<and> named_descriptors (map_of (req_data demo_patch) ''tags'')
   \<and> named_descriptors (map_of (req_data demo_patch) ''authors'')
   \<and> documented (book_list demo_patch demo_store)
   \<and> documented (book_retrieve demo_patch 1 demo_store)
   \<and> documented (book_create demo_patch demo_store)
   \<and> documented (book_update True demo_patch 1 demo_store)
   \<and> documented (book_destroy demo_patch 1 demo_store)
   \<and> documented (upload_image demo_patch 1 demo_store)
   \<and> documented (attr_list Tag demo_patch demo_store)
   \<and> documented (attr_update Tag True demo_patch 1 demo_store)
   \<and> documented (attr_destroy Tag demo_patch 1 demo_store)"
proof -
  have 1: "ids_param_ok (map_of (req_query_params demo_patch) ''tags'')" by code_simp
  have 2: "ids_param_ok (map_of (req_query_params demo_patch) ''authors'')" by code_simp
  have 3: "flag_param_ok (map_of (req_query_params demo_patch) ''assigned_only'')" by code_simp
  have 4: "distinct (map bid (books demo_store))" by code_simp
  have 5: "distinct (map nid (rows_of Tag demo_store))" by code_simp
  have 6: "unique_names (tags demo_store)" by code_simp
  have 7: "unique_names (authors demo_store)" by code_simp
  have 8: "named_descriptors (map_of (req_data demo_patch) ''tags'')" by code_simp
  have 9: "named_descriptors (map_of (req_data demo_patch) ''authors'')" by code_simp
  from well_formed_requests_are_answered[OF 1 2 3 4 5 6 7, of True 1] 8 9
  have "documented (book_list demo_patch demo_store)
   \<and> documented (book_retrieve demo_patch 1 demo_store)
   \<and> documented (book_create demo_patch demo_store)
   \<and> documented (book_update True demo_patch 1 demo_store)
   \<and> documented (book_destroy demo_patch 1 demo_store)
   \<and> documented (upload_image demo_patch 1 demo_store)
   \<and> documented (attr_list Tag demo_patch demo_store)
   \<and> documented (attr_update Tag True demo_patch 1 demo_store)
   \<and> documented (attr_destroy Tag demo_patch 1 demo_store)" by blast
  with 1 2 3 4 5 6 7 8 9 show ?thesis by blast
qed

section \<open>Invalid payloads are rejected without a write\<close>

text \<open>
  Validation runs before any write. For an authenticated request, a create whose body is
  invalid is answered with 400 and a non-empty error map keyed by fields of the serializer,
  and the store is unchanged; so are an update and an upload with an invalid body on a book
  that \<^verbatim>\<open>get_object\<close> finds (without such a book the answer is 404). In general, whenever
  the serializer's validation fails, the answer is 400 with its error map and the store is
  unchanged. Here a body counts as invalid as \<open>invalid_payload\<close> and \<open>invalid_upload\<close>
  say; for a partial update that is a negative price only.
\<close>

lemma invalid_payload_is_rejected_without_write:
  assumes "req_user req = Some u"
  shows "(invalid_payload False (req_data req) \<longrightarrow>
            (\<exists>errs. errs \<noteq> [] \<and> fst ` set errs \<subseteq> set (meta_fields BookDetailSerializer)
                \<and> book_create req s = (Inr (bad_request errs), s)))
       \<and> (get_object u (req_query_params req) pk s = Inr (Some inst)
            \<and> invalid_payload partial (req_data req) \<longrightarrow>
            (\<exists>errs. errs \<noteq> [] \<and> fst ` set errs \<subseteq> set (meta_fields BookDetailSerializer)
                \<and> book_update partial req pk s = (Inr (bad_request errs), s)))
       \<and> (get_object u (req_query_params req) pk s = Inr (Some inst)
            \<and> invalid_upload (req_data req) \<longrightarrow>
            (\<exists>errs. errs \<noteq> [] \<and> fst ` set errs \<subseteq> set (meta_fields BookImageSerializer)
                \<and> upload_image req pk s = (Inr (bad_request errs), s)))
       \<and> (\<forall>errs. run_validation BookDetailSerializer False (req_data req) = Inl errs \<longrightarrow>
            book_create req s = (Inr (bad_request errs), s))
       \<and> (\<forall>errs. get_object u (req_query_params req) pk s = Inr (Some inst)
            \<and> run_validation BookDetailSerializer partial (req_data req) = Inl errs \<longrightarrow>
            book_update partial req pk s = (Inr (bad_request errs), s))
       \<and> (\<forall>errs. get_object u (req_query_params req) pk s = Inr (Some inst)
            \<and> run_validation BookImageSerializer False (req_data req) = Inl errs \<longrightarrow>
            upload_image req pk s = (Inr (bad_request errs), s))"
proof -
  have cls: "get_serializer_class Create = BookDetailSerializer"
    "get_serializer_class (if partial then PartialUpdate else Update) = BookDetailSerializer"
    "get_serializer_class UploadImage = BookImageSerializer"
    by (simp_all add: get_serializer_class_def)
  have C: "book_create req s = (Inr (bad_request errs), s)"
    if "run_validation BookDetailSerializer False (req_data req) = Inl errs" for errs
    using that by (simp add: book_create_def assms cls)
  have U: "book_update partial req pk s = (Inr (bad_request errs), s)"
    if "get_object u (req_query_params req) pk s = Inr (Some inst)"
      "run_validation BookDetailSerializer partial (req_data req) = Inl errs" for errs
    using that by (simp add: book_update_def assms cls)
  have I: "upload_image req pk s = (Inr (bad_request errs), s)"
    if "get_object u (req_query_params req) pk s = Inr (Some inst)"
      "run_validation BookImageSerializer False (req_data req) = Inl errs" for errs
    using that by (simp add: upload_image_def assms cls)
  have 1: "invalid_payload False (req_data req) \<longrightarrow>
            (\<exists>errs. errs \<noteq> [] \<and> fst ` set errs \<subseteq> set (meta_fields BookDetailSerializer)
                \<and> book_create req s = (Inr (bad_request errs), s))"
  proof
    assume "invalid_payload False (req_data req)"
    from invalid_payload_rejected[OF this] obtain errs where
      e: "run_validation BookDetailSerializer False (req_data req) = Inl errs" by blast
    show "\<exists>errs. errs \<noteq> [] \<and> fst ` set errs \<subseteq> set (meta_fields BookDetailSerializer)
                \<and> book_create req s = (Inr (bad_request errs), s)"
      by (intro exI[of _ errs] conjI run_validation_errors[OF e] C[OF e])
  qed
  have 2: "get_object u (req_query_params req) pk s = Inr (Some inst)
            \<and> invalid_payload partial (req_data req) \<longrightarrow>
            (\<exists>errs. errs \<noteq> [] \<and> fst ` set errs \<subseteq> set (meta_fields BookDetailSerializer)
                \<and> book_update partial req pk s = (Inr (bad_request errs), s))"
  proof
    assume a: "get_object u (req_query_params req) pk s = Inr (Some inst)
            \<and> invalid_payload partial (req_data req)"
    then have g: "get_object u (req_query_params req) pk s = Inr (Some inst)"
      and i: "invalid_payload partial (req_data req)" by simp_all
    from invalid_payload_rejected[OF i] obtain errs where
      e: "run_validation BookDetailSerializer partial (req_data req) = Inl errs" by blast
    show "\<exists>errs. errs \<noteq> [] \<and> fst ` set errs \<subseteq> set (meta_fields BookDetailSerializer)
                \<and> book_update partial req pk s = (Inr (bad_request errs), s)"
      by (intro exI[of _ errs] conjI run_validation_errors[OF e] U[OF g e])
  qed
  have 3: "get_object u (req_query_params req) pk s = Inr (Some inst)
            \<and> invalid_upload (req_data req) \<longrightarrow>
            (\<exists>errs. errs \<noteq> [] \<and> fst ` set errs \<subseteq> set (meta_fields BookImageSerializer)
                \<and> upload_image req pk s = (Inr (bad_request errs), s))"
  proof
    assume a: "get_object u (req_query_params req) pk s = Inr (Some inst)
            \<and> invalid_upload (req_data req)"
    then have g: "get_object u (req_query_params req) pk s = Inr (Some inst)"
      and i: "invalid_upload (req_data req)" by simp_all
    from invalid_upload_rejected[OF i] obtain errs where
      e: "run_validation BookImageSerializer False (req_data req) = Inl errs" by blast
    show "\<exists>errs. errs \<noteq> [] \<and> fst ` set errs \<subseteq> set (meta_fields BookImageSerializer)
                \<and> upload_image req pk s = (Inr (bad_request errs), s)"
      by (intro exI[of _ errs] conjI run_validation_errors[OF e] I[OF g e])
  qed
  have 4: "\<forall>errs. run_validation BookDetailSerializer False (req_data req) = Inl errs \<longrightarrow>
            book_create req s = (Inr (bad_request errs), s)"
    using C by simp
  have 5: "\<forall>errs. get_object u (req_query_params req) pk s = Inr (Some inst)
            \<and> run_validation BookDetailSerializer partial (req_data req) = Inl errs \<longrightarrow>
            book_update partial req pk s = (Inr (bad_request errs), s)"
    using U by simp
  have 6: "\<forall>errs. get_object u (req_query_params req) pk s = Inr (Some inst)
            \<and> run_validation BookImageSerializer False (req_data req) = Inl errs \<longrightarrow>
            upload_image req pk s = (Inr (bad_request errs), s)"
    using I by simp
  show ?thesis
    by (intro conjI 1 2 3 4 5 6)
qed

lemma invalid_payload_is_rejected_without_write_instance:
  "req_user demo_negative_price = Some 1
   \<and> invalid_payload False (req_data demo_negative_price)
   \<and> invalid_payload True (req_data demo_negative_price)
   \<and> book_create demo_negative_price demo_store
       = (Inr (bad_request
                 [(''price'', Messages [''Ensure this value is greater than or equal to 0.''])]),
          demo_store)
   \<and> get_object 1 (req_query_params demo_negative_price) 1 demo_store = Inr (Some demo_book1)
   \<and> book_update True demo_negative_price 1 demo_store
       = (Inr (bad_request
                 [(''price'', Messages [''Ensure this value is greater than or equal to 0.''])]),
          demo_store)
   \<and> req_user demo_nameless = Some 1
   \<and> invalid_payload False (req_data demo_nameless)
   \<and> get_object 1 (req_query_params demo_nameless) 1 demo_store = Inr (Some demo_book1)
   \<and> book_update False demo_nameless 1 demo_store
       = (Inr (bad_request
                 [(''title'', Messages [''This field is required.'']),
                  (''tags'', Children [[(''name'', [''This field is required.''])]])]),
          demo_store)
   \<and> req_user demo_not_an_image = Some 1
   \<and> invalid_upload (req_data demo_not_an_image)
   \<and> get_object 1 (req_query_params demo_not_an_image) 1 demo_store = Inr (Some demo_book1)
   \<and> upload_image demo_not_an_image 1 demo_store
       = (Inr (bad_request [(''image'', Messages [''Upload a valid image.''])]), demo_store)
   \<and> (\<exists>errs. errs \<noteq> [] \<and> fst ` set errs \<subseteq> set (meta_fields BookDetailSerializer)
          \<and> book_create demo_nameless demo_store = (Inr (bad_request errs), demo_store))"
proof -
  have u1: "req_user demo_negative_price = Some 1" by (simp add: demo_negative_price_def)
  have u2: "req_user demo_nameless = Some 1" by (simp add: demo_nameless_def)
  have u3: "req_user demo_not_an_image = Some 1" by (simp add: demo_not_an_image_def)
  have i1: "invalid_payload False (req_data demo_negative_price)" by code_simp
  have i1': "invalid_payload True (req_data demo_negative_price)" by code_simp
  have i2: "invalid_payload False (req_data demo_nameless)" by code_simp
  have i3: "invalid_upload (req_data demo_not_an_image)" by code_simp
  have g1: "get_object 1 (req_query_params demo_negative_price) 1 demo_store
              = Inr (Some demo_book1)" by code_simp
  have g2: "get_object 1 (req_query_params demo_nameless) 1 demo_store = Inr (Some demo_book1)"
    by code_simp
  have g3: "get_object 1 (req_query_params demo_not_an_image) 1 demo_store
              = Inr (Some demo_book1)" by code_simp
  have v1: "run_validation BookDetailSerializer False (req_data demo_negative_price)
              = Inl [(''price'', Messages [''Ensure this value is greater than or equal to 0.''])]"
    by code_simp
  have v1': "run_validation BookDetailSerializer True (req_data demo_negative_price)
              = Inl [(''price'', Messages [''Ensure this value is greater than or equal to 0.''])]"
    by code_simp
  have v2: "run_validation BookDetailSerializer False (req_data demo_nameless)
              = Inl [(''title'', Messages [''This field is required.'']),
                     (''tags'', Children [[(''name'', [''This field is required.''])]])]"
    by code_simp
  have v3: "run_validation BookImageSerializer False (req_data demo_not_an_image)
              = Inl [(''image'', Messages [''Upload a valid image.''])]"
    by code_simp
  note t1 = invalid_payload_is_rejected_without_write[OF u1, of demo_store 1 demo_book1 True]
  note t2 = invalid_payload_is_rejected_without_write[OF u2, of demo_store 1 demo_book1 False]
  note t3 = invalid_payload_is_rejected_without_write[OF u3, of demo_store 1 demo_book1 False]
  from t1 v1 have c1: "book_create demo_negative_price demo_store
       = (Inr (bad_request
                 [(''price'', Messages [''Ensure this value is greater than or equal to 0.''])]),
          demo_store)" by blast
  from t1 g1 v1' have c2: "book_update True demo_negative_price 1 demo_store
       = (Inr (bad_request
                 [(''price'', Messages [''Ensure this value is greater than or equal to 0.''])]),
          demo_store)" by blast
  from t2 g2 v2 have c3: "book_update False demo_nameless 1 demo_store
       = (Inr (bad_request
                 [(''title'', Messages [''This field is required.'']),
                  (''tags'', Children [[(''name'', [''This field is required.''])]])]),
          demo_store)" by blast
  from t3 g3 v3 have c4: "upload_image demo_not_an_image 1 demo_store
       = (Inr (bad_request [(''image'', Messages [''Upload a valid image.''])]), demo_store)"
    by blast
  from t2 i2 have c5: "\<exists>errs. errs \<noteq> [] \<and> fst ` set errs \<subseteq> set (meta_fields BookDetailSerializer)
          \<and> book_create demo_nameless demo_store = (Inr (bad_request errs), demo_store)"
    by blast
  show ?thesis
    by (intro conjI u1 u2 u3 i1 i1' i2 i3 g1 g2 g3 c1 c2 c3 c4 c5)
qed

text \<open>
  Claim C6: a Book create, update or image-upload request with an invalid payload, a nested
  descriptor without a name among them, is answered with 400 and writes nothing. The code
  breaks this on one path. A POST and a PUT whose body holds an author descriptor without
  a name are rejected with 400 and write nothing, as the claim says. A PATCH with the same
  descriptor is not: partial validation skips the missing name, \<^verbatim>\<open>update\<close> clears the
  book's authors and calls \<^verbatim>\<open>get_or_create(user=auth_user)\<close> with no name, which here
  finds the one author of user 1, so the answer is 200 and book 3 is now linked to that
  author.
\<close>

theorem partial_update_accepts_nameless_descriptor:
  "\<not> named_descriptors (map_of [(''authors'', VList [VObj []])] ''authors'')
   \<and> book_update True
        \<lparr>req_user = Some 1, req_query_params = [],
           req_data = [(''authors'', VList [VObj []])]\<rparr> 3 demo_store
      = (Inr \<lparr>status_code = 200,
               content = Object
                 [(''id'', RNum 3), (''title'', RText ''C''), (''price'', RDec 100),
                  (''link'', RText []),
                  (''tags'', RObjects [[(''id'', RNum 2), (''name'', RText ''y'')]]),
                  (''authors'', RObjects [[(''id'', RNum 1), (''name'', RText ''ann'')]]),
                  (''description'', RText []), (''image'', RNull)]\<rparr>,
         demo_store\<lparr>book_authors := [(1, 1), (3, 1)]\<rparr>)
   \<and> book_authors demo_store = [(1, 1)]
   \<and> book_update False
        \<lparr>req_user = Some 1, req_query_params = [],
           req_data = [(''title'', VText ''C''), (''price'', VNum 100),
                       (''authors'', VList [VObj []])]\<rparr> 3 demo_store
      = (Inr (bad_request
                [(''authors'', Children [[(''name'', [''This field is required.''])]])]),
         demo_store)
   \<and> book_create
        \<lparr>req_user = Some 1, req_query_params = [],
           req_data = [(''title'', VText ''C''), (''price'', VNum 100),
                       (''authors'', VList [VObj []])]\<rparr> demo_store
      = (Inr (bad_request
                [(''authors'', Children [[(''name'', [''This field is required.''])]])]),
         demo_store)"
  by code_simp

end
